theory Spec2Isabelle
  imports Main "HOL-Library.Sublist" "HOL-Library.AList"
begin

section \<open>Strings\<close>

text \<open>
  A Python \<open>str\<close> is modelled as a \<open>string\<close>, each character standing for the code point of
  its number: the model covers the texts whose code points lie below 256. On these
  \<open>str.lower\<close> works character by character: it adds 32 to the code points of \<open>A\<close>..\<open>Z\<close> (65
  to 90) and of the Latin-1 capital letters (192 to 222, without the multiplication sign
  215), and leaves every other code point alone. The whitespace \<open>str.strip\<close> removes is, below
  256, the code points 9 to 13, 28 to 32, 133 (next line) and 160 (no-break space).
\<close>

abbreviation (input) bslash :: char where
  "bslash \<equiv> CHR 0x5C"

abbreviation (input) slash :: char where
  "slash \<equiv> CHR ''/''"

definition lower_char :: "char \<Rightarrow> char" where
  "lower_char c =
     (let n = (of_char c :: nat)
      in if (65 \<le> n \<and> n \<le> 90) \<or> (192 \<le> n \<and> n \<le> 222 \<and> n \<noteq> 215) then char_of (n + 32)
         else c)"

definition lower :: "string \<Rightarrow> string" where
  "lower s = map lower_char s"

definition startswith :: "string \<Rightarrow> string \<Rightarrow> bool" where
  "startswith s p = prefix p s"

text \<open>\<open>raw.replace("\\", "/")\<close>\<close>

definition replace_bslash :: "string \<Rightarrow> string" where
  "replace_bslash raw = map (\<lambda>c. if c = bslash then slash else c) raw"

text \<open>\<open>s.rstrip("/")\<close>\<close>

definition rstrip_slash :: "string \<Rightarrow> string" where
  "rstrip_slash s = rev (dropWhile (\<lambda>c. c = slash) (rev s))"

definition is_space :: "char \<Rightarrow> bool" where
  "is_space c = ((of_char c :: nat) \<in> {9, 10, 11, 12, 13, 28, 29, 30, 31, 32, 133, 160})"

text \<open>\<open>line.strip()\<close>\<close>

definition strip :: "string \<Rightarrow> string" where
  "strip s = rev (dropWhile is_space (rev (dropWhile is_space s)))"

section \<open>Path normalisation\<close>

text \<open>
  \<^verbatim>\<open>
  def normalize_cwd(raw: str) -> str:
      s = raw.replace("\\", "/")
      for prefix in ("//?/", "\\\\?\\"):
          if s.lower().startswith(prefix.lower()):
              s = s[len(prefix) :]
      s = s.rstrip("/")
      return s.lower()
  \<close>
  The tuple of prefixes and the loop over it are kept as they are written.
\<close>

definition verbatim_prefixes :: "string list" where
  "verbatim_prefixes = [''//?/'', [bslash, bslash, CHR ''?'', bslash]]"

fun strip_prefixes :: "string list \<Rightarrow> string \<Rightarrow> string" where
  "strip_prefixes [] s = s"
| "strip_prefixes (p # ps) s =
     strip_prefixes ps (if startswith (lower s) (lower p) then drop (length p) s else s)"

definition normalize_cwd :: "string \<Rightarrow> string" where
  "normalize_cwd raw =
     (let s = replace_bslash raw;
          s = strip_prefixes verbatim_prefixes s;
          s = rstrip_slash s
      in lower s)"

section \<open>JSON values and the library calls of the script\<close>

text \<open>
  The values \<open>json.loads\<close> returns. A \<open>dict\<close> is an association list in insertion order;
  Python's \<open>None\<close> is \<open>JNull\<close>. A \<open>float\<close> is held as the text \<open>repr\<close> prints for it, which
  identifies the float.
\<close>

datatype json =
    JNull
  | JBool bool
  | JInt int
  | JFloat string
  | JStr string
  | JArr "json list"
  | JObj "(string \<times> json) list"

datatype error =
    FileNotFoundError
  | JSONDecodeError
  | AttributeError
  | TypeError
  | IndexError
  | UnicodeEncodeError

text \<open>A path of \<open>pathlib\<close>: the directory it lies in and its final component.\<close>

datatype path = Path (parent: string) (name: string)

text \<open>
  The file system: the lines of each file that exists. A file that exists can be opened for
  reading and for writing; other failures of the operating system are outside the model.
\<close>

type_synonym fs = "path \<Rightarrow> string list option"

text \<open>
  The library functions the script calls and the repository does not define:
  \<open>json_loads\<close> is \<open>json.loads\<close> (\<open>None\<close> when it raises),
  \<open>json_dumps_sorted\<close> is \<open>json.dumps(obj, sort_keys=True)\<close>,
  \<open>json_dumps\<close> is \<open>json.dumps(obj, ensure_ascii=False)\<close>,
  \<open>str_of\<close> is \<open>str\<close> on a value that is not a string,
  \<open>glob\<close> is \<open>Path.glob\<close> on a directory, in the order the directory is enumerated, and
  \<open>encodes_utf8\<close> says whether the strict UTF-8 encoder of a file opened for writing accepts
  a text (it raises \<open>UnicodeEncodeError\<close> on the text of a record that holds a surrogate,
  which \<open>json.loads\<close> gives for an escape such as \<open>\ud800\<close>).
\<close>

record pylib =
  json_loads :: "string \<Rightarrow> json option"
  json_dumps_sorted :: "json \<Rightarrow> string"
  json_dumps :: "json \<Rightarrow> string"
  str_of :: "json \<Rightarrow> string"
  glob :: "fs \<Rightarrow> string \<Rightarrow> string \<Rightarrow> path list"
  encodes_utf8 :: "string \<Rightarrow> bool"

definition and_then :: "error + 'a \<Rightarrow> ('a \<Rightarrow> error + 'b) \<Rightarrow> error + 'b" where
  "and_then m f = (case m of Inl e \<Rightarrow> Inl e | Inr x \<Rightarrow> f x)"

text \<open>\<open>d.get(k, default)\<close>: only a \<open>dict\<close> has the method.\<close>

fun dict_get :: "json \<Rightarrow> string \<Rightarrow> json \<Rightarrow> error + json" where
  "dict_get (JObj kvs) k d = Inr (case map_of kvs k of None \<Rightarrow> d | Some v \<Rightarrow> v)"
| "dict_get _ k d = Inl AttributeError"

text \<open>
  \<open>d[k] = v\<close>: an existing key keeps its place, a new key goes last; with a string key
  every other kind of value raises \<open>TypeError\<close>.
\<close>

fun dict_set :: "json \<Rightarrow> string \<Rightarrow> json \<Rightarrow> error + json" where
  "dict_set (JObj kvs) k v = Inr (JObj (AList.update k v kvs))"
| "dict_set _ k v = Inl TypeError"

text \<open>The truth value of \<open>if v:\<close>.\<close>

fun truthy :: "json \<Rightarrow> bool" where
  "truthy JNull = False"
| "truthy (JBool b) = b"
| "truthy (JInt n) = (n \<noteq> 0)"
| "truthy (JFloat r) = (r \<noteq> ''0.0'' \<and> r \<noteq> ''-0.0'')"
| "truthy (JStr s) = (s \<noteq> [])"
| "truthy (JArr xs) = (xs \<noteq> [])"
| "truthy (JObj kvs) = (kvs \<noteq> [])"

text \<open>\<open>str(v)\<close>\<close>

definition py_str :: "pylib \<Rightarrow> json \<Rightarrow> string" where
  "py_str L v = (case v of JStr s \<Rightarrow> s | _ \<Rightarrow> str_of L v)"

section \<open>Identity extraction\<close>

text \<open>
  \<^verbatim>\<open>
  for line in fh:
      line = line.strip()
      if not line:
          continue
      obj = json.loads(line)
      if obj.get("type") == "session_meta":
          meta = obj.get("payload", {}).get("meta", {})
          cwd = meta.get("cwd")
          cid = meta.get("id")
          return cwd, cid
  \<close>
  The loop of \<open>extract_cwd_and_id_from_jsonl\<close>; \<open>json.loads\<close> is not guarded here, so a line
  that does not decode ends the loop with the exception.
\<close>

fun extract_loop :: "pylib \<Rightarrow> string list \<Rightarrow> error + (json \<times> json)" where
  "extract_loop L [] = Inr (JNull, JNull)"
| "extract_loop L (line0 # rest) =
     (if strip line0 = [] then extract_loop L rest
      else case json_loads L (strip line0) of
        None \<Rightarrow> Inl JSONDecodeError
      | Some obj \<Rightarrow>
          (case dict_get obj ''type'' JNull of
            Inl e \<Rightarrow> Inl e
          | Inr typ \<Rightarrow>
              if typ = JStr ''session_meta'' then
                and_then (dict_get obj ''payload'' (JObj [])) (\<lambda>payload.
                and_then (dict_get payload ''meta'' (JObj [])) (\<lambda>meta.
                and_then (dict_get meta ''cwd'' JNull) (\<lambda>cwd.
                and_then (dict_get meta ''id'' JNull) (\<lambda>cid.
                Inr (cwd, cid)))))
              else extract_loop L rest))"

text \<open>
  \<open>FileNotFoundError\<close> gives \<open>(None, None)\<close>; every other exception is caught by
  \<open>except Exception\<close>, which prints a warning to \<open>stderr\<close> (not recorded here) and falls
  through to the final \<open>return None, None\<close>.
\<close>

definition extract_cwd_and_id_from_jsonl :: "pylib \<Rightarrow> fs \<Rightarrow> path \<Rightarrow> json \<times> json" where
  "extract_cwd_and_id_from_jsonl L fs p =
     (case fs p of
        None \<Rightarrow> (JNull, JNull)
      | Some lines \<Rightarrow>
          (case extract_loop L lines of Inl e \<Rightarrow> (JNull, JNull) | Inr r \<Rightarrow> r))"

section \<open>Timestamp prefix\<close>

definition ts_prefix_from_name :: "path \<Rightarrow> string option" where
  "ts_prefix_from_name p =
     (if \<not> startswith (name p) ''rollout-'' then None
      else let core = drop (length ''rollout-'') (name p)
           in if 19 \<le> length core then Some (take 19 core) else None)"

section \<open>Identity rehydration\<close>

text \<open>
  \<^verbatim>\<open>
  def update_cwd_and_id(obj: Dict, new_cwd: str, new_cid: str) -> Dict:
      typ = obj.get("type")
      payload = obj.get("payload", {})
      if typ == "session_meta":
          meta = payload.get("meta", {})
          meta["cwd"] = new_cwd
          meta["id"] = new_cid
          payload["meta"] = meta
          obj["payload"] = payload
      elif typ == "turn_context":
          payload["cwd"] = new_cwd
          obj["payload"] = payload
      return obj
  \<close>
  The records come from \<open>json.loads\<close>, so no two of them share a \<open>dict\<close> and the in-place
  update is the update of a value. The caller passes the raw values of the target's
  identity, whatever their JSON type.
\<close>

definition update_cwd_and_id :: "json \<Rightarrow> json \<Rightarrow> json \<Rightarrow> error + json" where
  "update_cwd_and_id obj new_cwd new_cid =
     and_then (dict_get obj ''type'' JNull) (\<lambda>typ.
     and_then (dict_get obj ''payload'' (JObj [])) (\<lambda>payload.
       if typ = JStr ''session_meta'' then
         and_then (dict_get payload ''meta'' (JObj [])) (\<lambda>meta.
         and_then (dict_set meta ''cwd'' new_cwd) (\<lambda>meta.
         and_then (dict_set meta ''id'' new_cid) (\<lambda>meta.
         and_then (dict_set payload ''meta'' meta) (\<lambda>payload.
         dict_set obj ''payload'' payload))))
       else if typ = JStr ''turn_context'' then
         and_then (dict_set payload ''cwd'' new_cwd) (\<lambda>payload.
         dict_set obj ''payload'' payload)
       else Inr obj))"

section \<open>The context-filtered scanner\<close>

text \<open>
  \<^verbatim>\<open>
  payload = obj.get("payload", {})
  new_cwd = None
  if obj.get("type") == "session_meta":
      new_cwd = payload.get("meta", {}).get("cwd")
  elif obj.get("type") == "turn_context":
      new_cwd = payload.get("cwd")
  \<close>
\<close>

definition new_cwd_of :: "json \<Rightarrow> error + json" where
  "new_cwd_of obj =
     and_then (dict_get obj ''payload'' (JObj [])) (\<lambda>payload.
     and_then (dict_get obj ''type'' JNull) (\<lambda>typ.
       if typ = JStr ''session_meta'' then
         and_then (dict_get payload ''meta'' (JObj [])) (\<lambda>meta. dict_get meta ''cwd'' JNull)
       else if typ = JStr ''turn_context'' then dict_get payload ''cwd'' JNull
       else Inr JNull))"

text \<open>
  One pass of the loop body over a line, on the loop's two variables \<open>current_cwd\<close> and
  \<open>lines\<close>. Only \<open>json.loads\<close> stands inside the inner \<open>try\<close>; \<open>if current_cwd\<close> is false for
  \<open>None\<close> and for the empty string.
\<close>

definition scan_step ::
  "pylib \<Rightarrow> string \<Rightarrow> string option \<times> json list \<Rightarrow> string \<Rightarrow> error + (string option \<times> json list)"
where
  "scan_step L target_cwd_norm st raw0 =
     (if strip raw0 = [] then Inr st
      else case json_loads L (strip raw0) of
        None \<Rightarrow> Inr st
      | Some obj \<Rightarrow>
          and_then (new_cwd_of obj) (\<lambda>new_cwd.
            let current_cwd =
                  (if truthy new_cwd then Some (normalize_cwd (py_str L new_cwd)) else fst st)
            in Inr (current_cwd,
                    if current_cwd \<noteq> None \<and> current_cwd \<noteq> Some [] \<and>
                       current_cwd = Some target_cwd_norm
                    then snd st @ [obj] else snd st)))"

fun scan_lines ::
  "pylib \<Rightarrow> string \<Rightarrow> string option \<times> json list \<Rightarrow> string list \<Rightarrow> error + (string option \<times> json list)"
where
  "scan_lines L target_cwd_norm st [] = Inr st"
| "scan_lines L target_cwd_norm st (raw # rest) =
     (case scan_step L target_cwd_norm st raw of
        Inl e \<Rightarrow> Inl e
      | Inr st' \<Rightarrow> scan_lines L target_cwd_norm st' rest)"

definition collect_cwd_filtered_lines :: "pylib \<Rightarrow> fs \<Rightarrow> path \<Rightarrow> string \<Rightarrow> error + json list" where
  "collect_cwd_filtered_lines L fs src_path target_cwd_norm =
     (case fs src_path of
        None \<Rightarrow> Inr []
      | Some raws \<Rightarrow>
          (case scan_lines L target_cwd_norm (None, []) raws of
            Inl e \<Rightarrow> Inl e
          | Inr st \<Rightarrow> Inr (snd st)))"

section \<open>Merge and deduplication\<close>

fun dedup_loop :: "pylib \<Rightarrow> string set \<Rightarrow> json list \<Rightarrow> json list \<Rightarrow> json list" where
  "dedup_loop L seen out [] = out"
| "dedup_loop L seen out (obj # objs) =
     (if json_dumps_sorted L obj \<in> seen then dedup_loop L seen out objs
      else dedup_loop L (insert (json_dumps_sorted L obj) seen) (out @ [obj]) objs)"

definition dedup_preserve_order :: "pylib \<Rightarrow> json list \<Rightarrow> json list" where
  "dedup_preserve_order L objs = dedup_loop L {} [] objs"

text \<open>\<open>merged = dedup_preserve_order(source_lines + existing)\<close>\<close>

definition merge_lines :: "pylib \<Rightarrow> json list \<Rightarrow> json list \<Rightarrow> json list" where
  "merge_lines L source_lines existing = dedup_preserve_order L (source_lines @ existing)"

section \<open>Per-file repair\<close>

text \<open>
  \<open>candidates.sort(key=lambda p: len(p.name), reverse=True)\<close>: the sort is stable, and
  with \<open>reverse=True\<close> it still keeps elements of equal key in their original order (the
  list is reversed, sorted and reversed again).
\<close>

definition sort_candidates :: "path list \<Rightarrow> path list" where
  "sort_candidates candidates = rev (sort_key (\<lambda>p. length (name p)) (rev candidates))"

text \<open>Lines 140 to 143: the candidate the repair reads, of a list that is not empty.\<close>

definition choose_candidate :: "path list \<Rightarrow> error + path" where
  "choose_candidate candidates =
     (case (if 1 < length candidates then sort_candidates candidates else candidates) of
        [] \<Rightarrow> Inl IndexError
      | src_path # _ \<Rightarrow> Inr src_path)"

text \<open>The target's own lines, read again: blank lines and lines that do not decode are skipped.\<close>

fun read_existing :: "pylib \<Rightarrow> string list \<Rightarrow> json list" where
  "read_existing L [] = []"
| "read_existing L (raw0 # rest) =
     (if strip raw0 = [] then read_existing L rest
      else case json_loads L (strip raw0) of
        None \<Rightarrow> read_existing L rest
      | Some obj \<Rightarrow> obj # read_existing L rest)"

fun rehydrate :: "json \<Rightarrow> json \<Rightarrow> json list \<Rightarrow> error + json list" where
  "rehydrate new_cwd new_cid [] = Inr []"
| "rehydrate new_cwd new_cid (obj # objs) =
     (case update_cwd_and_id obj new_cwd new_cid of
        Inl e \<Rightarrow> Inl e
      | Inr obj' \<Rightarrow>
          (case rehydrate new_cwd new_cid objs of
            Inl e \<Rightarrow> Inl e
          | Inr objs' \<Rightarrow> Inr (obj' # objs')))"

text \<open>
  \<^verbatim>\<open>
  with jsonl_path.open("w", encoding="utf-8") as fh:
      for obj in merged:
          fh.write(json.dumps(obj, ensure_ascii=False))
          fh.write("\n")
  return True
  \<close>
  Opening the file for writing empties it. A text the encoder refuses raises at the write
  of that text; the lines written before it stay in the file, which is closed on the way
  out, and the exception leaves \<open>process_jsonl\<close>.
\<close>

fun write_loop :: "pylib \<Rightarrow> string list \<Rightarrow> json list \<Rightarrow> error option \<times> string list" where
  "write_loop L written [] = (None, written)"
| "write_loop L written (obj # merged) =
     (if encodes_utf8 L (json_dumps L obj)
      then write_loop L (written @ [json_dumps L obj @ [CHR 0x0A]]) merged
      else (Some UnicodeEncodeError, written))"

definition write_file :: "pylib \<Rightarrow> fs \<Rightarrow> path \<Rightarrow> json list \<Rightarrow> (error + bool) \<times> fs" where
  "write_file L fs jsonl_path merged =
     (case write_loop L [] merged of
        (None, written) \<Rightarrow> (Inr True, fs(jsonl_path \<mapsto> written))
      | (Some e, written) \<Rightarrow> (Inl e, fs(jsonl_path \<mapsto> written)))"

text \<open>
  \<open>process_jsonl\<close> gives what it returns, or the exception that leaves it, together with
  the file system it leaves behind.
\<close>

definition process_jsonl :: "pylib \<Rightarrow> fs \<Rightarrow> path \<Rightarrow> bool \<Rightarrow> (error + bool) \<times> fs" where
  "process_jsonl L fs jsonl_path dry_run =
     (let target_cwd_raw = fst (extract_cwd_and_id_from_jsonl L fs jsonl_path);
          target_cid = snd (extract_cwd_and_id_from_jsonl L fs jsonl_path)
      in
      if \<not> truthy target_cwd_raw \<or> \<not> truthy target_cid then (Inr False, fs)
      else
        (case ts_prefix_from_name jsonl_path of
          None \<Rightarrow> (Inr False, fs)
        | Some ts_prefix \<Rightarrow>
            (if ts_prefix = [] then (Inr False, fs)
             else
               (case glob L fs (parent jsonl_path) (''rollout-'' @ ts_prefix @ ''-*.mixed.bak'') of
                 [] \<Rightarrow> (Inr False, fs)
               | c # cs \<Rightarrow>
                   (case choose_candidate (c # cs) of
                     Inl e \<Rightarrow> (Inl e, fs)
                   | Inr src_path \<Rightarrow>
                       (case collect_cwd_filtered_lines L fs src_path
                               (normalize_cwd (py_str L target_cwd_raw)) of
                         Inl e \<Rightarrow> (Inl e, fs)
                       | Inr source_lines \<Rightarrow>
                           (if source_lines = [] then (Inr False, fs)
                            else
                              (case rehydrate target_cwd_raw target_cid source_lines of
                                Inl e \<Rightarrow> (Inl e, fs)
                              | Inr rehydrated \<Rightarrow>
                                  (case fs jsonl_path of
                                    None \<Rightarrow> (Inl FileNotFoundError, fs)
                                  | Some raws \<Rightarrow>
                                      (if dry_run then (Inr True, fs)
                                       else write_file L fs jsonl_path
                                              (merge_lines L rehydrated
                                                 (read_existing L raws))))))))))))"

section \<open>Reference descriptions\<close>

text \<open>
  The records a pass over \<open>xs\<close> keeps when the keys in \<open>seen\<close> have been met before: the
  first record of every key not in \<open>seen\<close>, in the order of \<open>xs\<close>.
\<close>

fun first_seen :: "pylib \<Rightarrow> string set \<Rightarrow> json list \<Rightarrow> json list" where
  "first_seen L seen [] = []"
| "first_seen L seen (x # xs) =
     (if json_dumps_sorted L x \<in> seen then first_seen L seen xs
      else x # first_seen L (insert (json_dumps_sorted L x) seen) xs)"

text \<open>
  The first occurrences of \<open>xs\<close> under equality of the canonical serialisation: the
  elements whose key no earlier element has, in their original order.
\<close>

definition first_occurrences :: "pylib \<Rightarrow> json list \<Rightarrow> json list" where
  "first_occurrences L xs =
     map (\<lambda>i. xs ! i)
       (filter (\<lambda>i. json_dumps_sorted L (xs ! i) \<notin> json_dumps_sorted L ` set (take i xs))
          [0..<length xs])"

text \<open>The value at a path of field names, when every step but the last leads to a \<open>dict\<close>.\<close>

fun get_path :: "string list \<Rightarrow> json \<Rightarrow> json option" where
  "get_path [] v = Some v"
| "get_path (k # ks) (JObj kvs) = (case map_of kvs k of None \<Rightarrow> None | Some v \<Rightarrow> get_path ks v)"
| "get_path (k # ks) _ = None"

definition is_dict :: "json \<Rightarrow> bool" where
  "is_dict v = (case v of JObj kvs \<Rightarrow> True | _ \<Rightarrow> False)"

text \<open>
  A record: a \<open>dict\<close> whose \<open>payload\<close>, when the record is a \<open>session_meta\<close> or a
  \<open>turn_context\<close>, is a \<open>dict\<close> or missing, and whose \<open>payload.meta\<close>, when the record is a
  \<open>session_meta\<close>, is a \<open>dict\<close> or missing.
\<close>

fun is_record :: "json \<Rightarrow> bool" where
  "is_record (JObj kvs) =
     (if map_of kvs ''type'' = Some (JStr ''session_meta'') then
        (case map_of kvs ''payload'' of
           None \<Rightarrow> True
         | Some (JObj pkvs) \<Rightarrow> (case map_of pkvs ''meta'' of None \<Rightarrow> True | Some m \<Rightarrow> is_dict m)
         | Some _ \<Rightarrow> False)
      else if map_of kvs ''type'' = Some (JStr ''turn_context'') then
        (case map_of kvs ''payload'' of None \<Rightarrow> True | Some pl \<Rightarrow> is_dict pl)
      else True)"
| "is_record _ = False"

text \<open>
  The working directory a record declares: \<open>payload.meta.cwd\<close> of a \<open>session_meta\<close>
  record, \<open>payload.cwd\<close> of a \<open>turn_context\<close> record, none for every other kind.
\<close>

definition declared_cwd :: "json \<Rightarrow> json option" where
  "declared_cwd r =
     (if get_path [''type''] r = Some (JStr ''session_meta'')
      then get_path [''payload'', ''meta'', ''cwd''] r
      else if get_path [''type''] r = Some (JStr ''turn_context'')
      then get_path [''payload'', ''cwd''] r
      else None)"

definition cwd_value :: "json \<Rightarrow> json" where
  "cwd_value r = (case declared_cwd r of None \<Rightarrow> JNull | Some v \<Rightarrow> v)"

text \<open>The paths of the identity fields of a record, by its kind.\<close>

definition identity_paths :: "json \<Rightarrow> string list list" where
  "identity_paths r =
     (if get_path [''type''] r = Some (JStr ''session_meta'')
      then [[''payload'', ''meta'', ''cwd''], [''payload'', ''meta'', ''id'']]
      else if get_path [''type''] r = Some (JStr ''turn_context'')
      then [[''payload'', ''cwd'']]
      else [])"

text \<open>The records of a log: its lines that are not blank and that decode.\<close>

definition parsed_records :: "pylib \<Rightarrow> string list \<Rightarrow> json list" where
  "parsed_records L raws =
     List.map_filter (\<lambda>raw. if strip raw = [] then None else json_loads L (strip raw)) raws"

text \<open>
  The scanner as the specification words it: the active context after the records \<open>rs\<close>
  is the normalised working directory of the most recent record that declares one, and a
  record is kept when the active context, this record read, equals the target path.
\<close>

definition spec_active_context :: "pylib \<Rightarrow> json list \<Rightarrow> string option" where
  "spec_active_context L rs =
     (case filter (\<lambda>r. declared_cwd r \<noteq> None) (rev rs) of
        [] \<Rightarrow> None
      | r # _ \<Rightarrow> Some (normalize_cwd (py_str L (cwd_value r))))"

definition spec_filtered :: "pylib \<Rightarrow> string \<Rightarrow> json list \<Rightarrow> json list" where
  "spec_filtered L target rs =
     map (\<lambda>k. rs ! k)
       (filter (\<lambda>k. spec_active_context L (take (Suc k) rs) = Some target) [0..<length rs])"

text \<open>
  The same with the two tests the code makes: only a working directory that is true as a
  condition (not missing, not \<open>null\<close>, not the empty string) moves the active context, and
  only a context that is not the empty string matches.
\<close>

definition active_context :: "pylib \<Rightarrow> json list \<Rightarrow> string option" where
  "active_context L rs =
     (case filter (\<lambda>r. truthy (cwd_value r)) (rev rs) of
        [] \<Rightarrow> None
      | r # _ \<Rightarrow> Some (normalize_cwd (py_str L (cwd_value r))))"

definition context_filtered :: "pylib \<Rightarrow> string \<Rightarrow> json list \<Rightarrow> json list" where
  "context_filtered L target rs =
     map (\<lambda>k. rs ! k)
       (filter (\<lambda>k. target \<noteq> [] \<and> active_context L (take (Suc k) rs) = Some target)
          [0..<length rs])"

text \<open>The field names, in order, of the \<open>dict\<close> at a path; none when there is no \<open>dict\<close> there.\<close>

definition keys_at :: "string list \<Rightarrow> json \<Rightarrow> string list" where
  "keys_at q v = (case get_path q v of Some (JObj kvs) \<Rightarrow> map fst kvs | _ \<Rightarrow> [])"

text \<open>The stages of the repair of one file, as \<open>process_jsonl\<close> computes them.\<close>

definition identity_present :: "pylib \<Rightarrow> fs \<Rightarrow> path \<Rightarrow> bool" where
  "identity_present L fs p =
     (truthy (fst (extract_cwd_and_id_from_jsonl L fs p)) \<and>
      truthy (snd (extract_cwd_and_id_from_jsonl L fs p)))"

definition target_cwd_norm :: "pylib \<Rightarrow> fs \<Rightarrow> path \<Rightarrow> string" where
  "target_cwd_norm L fs p = normalize_cwd (py_str L (fst (extract_cwd_and_id_from_jsonl L fs p)))"

definition backup_candidates :: "pylib \<Rightarrow> fs \<Rightarrow> path \<Rightarrow> string \<Rightarrow> path list" where
  "backup_candidates L fs p ts = glob L fs (parent p) (''rollout-'' @ ts @ ''-*.mixed.bak'')"

text \<open>The lines the write stage puts into the file for the records it has written.\<close>

definition write_lines :: "pylib \<Rightarrow> json list \<Rightarrow> string list" where
  "write_lines L merged = map (\<lambda>obj. json_dumps L obj @ [CHR 0x0A]) merged"

text \<open>A record whose text the encoder of the output file accepts.\<close>

definition encodable :: "pylib \<Rightarrow> json \<Rightarrow> bool" where
  "encodable L obj = encodes_utf8 L (json_dumps L obj)"

text \<open>A backup that does not exist, or whose decodable lines are all records.\<close>

definition backup_of_records :: "pylib \<Rightarrow> fs \<Rightarrow> path \<Rightarrow> bool" where
  "backup_of_records L fs src =
     (case fs src of None \<Rightarrow> True | Some raws \<Rightarrow> list_all is_record (parsed_records L raws))"

section \<open>A sample session\<close>

text \<open>
  The lines of a small target log and of its backup, with the values \<open>json.loads\<close> and
  \<open>json.dumps\<close> give for them. The sample library knows these lines and values only: every
  other line does not decode.
\<close>

definition meta_t1_text :: string where
  \<open>meta_t1_text = ''{"type": "session_meta", "payload": {"meta": {"cwd": "/work/proj", "id": "T1"}}}''\<close>

definition meta_t1 :: json where
  "meta_t1 = JObj [(''type'', JStr ''session_meta''),
     (''payload'', JObj [(''meta'', JObj [(''cwd'', JStr ''/work/proj''), (''id'', JStr ''T1'')])])]"

definition meta_old_text :: string where
  \<open>meta_old_text = ''{"type": "session_meta", "payload": {"meta": {"cwd": "/work/proj", "id": "OLD"}}}''\<close>

definition meta_old :: json where
  "meta_old = JObj [(''type'', JStr ''session_meta''),
     (''payload'', JObj [(''meta'', JObj [(''cwd'', JStr ''/work/proj''), (''id'', JStr ''OLD'')])])]"

definition msg_one_text :: string where
  \<open>msg_one_text = ''{"type": "message", "payload": {"text": "one"}}''\<close>

definition msg_one :: json where
  "msg_one = JObj [(''type'', JStr ''message''), (''payload'', JObj [(''text'', JStr ''one'')])]"

definition ctx_other_text :: string where
  \<open>ctx_other_text = ''{"type": "turn_context", "payload": {"cwd": "/other"}}''\<close>

definition ctx_other :: json where
  "ctx_other = JObj [(''type'', JStr ''turn_context''), (''payload'', JObj [(''cwd'', JStr ''/other'')])]"

definition msg_two_text :: string where
  \<open>msg_two_text = ''{"type": "message", "payload": {"text": "two"}}''\<close>

definition msg_two :: json where
  "msg_two = JObj [(''type'', JStr ''message''), (''payload'', JObj [(''text'', JStr ''two'')])]"

text \<open>The first message again, its two fields written in the other order.\<close>

definition msg_one_swapped_text :: string where
  \<open>msg_one_swapped_text = ''{"payload": {"text": "one"}, "type": "message"}''\<close>

definition msg_one_swapped :: json where
  "msg_one_swapped = JObj [(''payload'', JObj [(''text'', JStr ''one'')]), (''type'', JStr ''message'')]"

text \<open>A session whose working directory is the root directory.\<close>

definition meta_root_text :: string where
  \<open>meta_root_text = ''{"type": "session_meta", "payload": {"meta": {"cwd": "/", "id": "R1"}}}''\<close>

definition meta_root :: json where
  "meta_root = JObj [(''type'', JStr ''session_meta''),
     (''payload'', JObj [(''meta'', JObj [(''cwd'', JStr ''/''), (''id'', JStr ''R1'')])])]"

text \<open>A context switch whose working directory is the empty string.\<close>

definition ctx_empty_text :: string where
  \<open>ctx_empty_text = ''{"type": "turn_context", "payload": {"cwd": ""}}''\<close>

definition ctx_empty :: json where
  "ctx_empty = JObj [(''type'', JStr ''turn_context''), (''payload'', JObj [(''cwd'', JStr [])])]"

text \<open>A line that decodes to a list, not to a record.\<close>

definition list_text :: string where
  "list_text = ''[1]''"

definition sample_loads :: "string \<Rightarrow> json option" where
  "sample_loads = map_of
     [(meta_t1_text, meta_t1), (meta_old_text, meta_old), (msg_one_text, msg_one),
      (ctx_other_text, ctx_other), (msg_two_text, msg_two),
      (msg_one_swapped_text, msg_one_swapped), (meta_root_text, meta_root),
      (ctx_empty_text, ctx_empty), (list_text, JArr [JInt 1])]"

definition sample_dumps_sorted :: "json \<Rightarrow> string" where
  \<open>sample_dumps_sorted v =
     (case map_of
        [(meta_t1, ''{"payload": {"meta": {"cwd": "/work/proj", "id": "T1"}}, "type": "session_meta"}''),
         (meta_old, ''{"payload": {"meta": {"cwd": "/work/proj", "id": "OLD"}}, "type": "session_meta"}''),
         (msg_one, msg_one_swapped_text),
         (msg_one_swapped, msg_one_swapped_text),
         (ctx_other, ''{"payload": {"cwd": "/other"}, "type": "turn_context"}''),
         (msg_two, ''{"payload": {"text": "two"}, "type": "message"}''),
         (meta_root, ''{"payload": {"meta": {"cwd": "/", "id": "R1"}}, "type": "session_meta"}''),
         (ctx_empty, ''{"payload": {"cwd": ""}, "type": "turn_context"}'')] v of
        None \<Rightarrow> []
      | Some t \<Rightarrow> t)\<close>

definition sample_dumps :: "json \<Rightarrow> string" where
  "sample_dumps v =
     (case map_of
        [(meta_t1, meta_t1_text), (meta_old, meta_old_text), (msg_one, msg_one_text),
         (msg_one_swapped, msg_one_swapped_text), (ctx_other, ctx_other_text),
         (msg_two, msg_two_text), (meta_root, meta_root_text), (ctx_empty, ctx_empty_text)] v of
        None \<Rightarrow> []
      | Some t \<Rightarrow> t)"

definition sample_dir :: string where
  "sample_dir = ''sessions/2025/01/01''"

definition sample_target :: path where
  "sample_target = Path sample_dir ''rollout-2025-01-01T00-00-00-abc.jsonl''"

definition sample_backup :: path where
  "sample_backup = Path sample_dir ''rollout-2025-01-01T00-00-00-abc.mixed.bak''"

definition sample_backup_long :: path where
  "sample_backup_long = Path sample_dir ''rollout-2025-01-01T00-00-00-abc-copy.mixed.bak''"

text \<open>The directory holds the backups that exist, the shorter name listed first.\<close>

definition sample_glob :: "fs \<Rightarrow> string \<Rightarrow> string \<Rightarrow> path list" where
  "sample_glob fs dir pattern =
     (if dir = sample_dir \<and> pattern = ''rollout-2025-01-01T00-00-00-*.mixed.bak''
      then filter (\<lambda>p. fs p \<noteq> None) [sample_backup, sample_backup_long]
      else [])"

definition sample_lib :: pylib where
  "sample_lib =
     \<lparr>json_loads = sample_loads, json_dumps_sorted = sample_dumps_sorted,
      json_dumps = sample_dumps, str_of = (\<lambda>v. []), glob = sample_glob,
      encodes_utf8 = (\<lambda>t. True)\<rparr>"

definition sample_fs :: fs where
  "sample_fs =
     (\<lambda>p. if p = sample_target then Some [meta_t1_text]
          else if p = sample_backup
          then Some [meta_old_text, msg_one_text, ctx_other_text, msg_two_text]
          else None)"

text \<open>The sample file system with other lines in the target, or in the backup.\<close>

definition with_target :: "string list \<Rightarrow> fs" where
  "with_target lines = sample_fs(sample_target \<mapsto> lines)"

definition with_backup :: "string list \<Rightarrow> fs" where
  "with_backup lines = sample_fs(sample_backup \<mapsto> lines)"

text \<open>A session in the root directory, with a backup of the same session.\<close>

definition root_fs :: fs where
  "root_fs = (with_target [meta_root_text])(sample_backup \<mapsto> [meta_root_text, msg_one_text])"

text \<open>The same session, its backup holding a line that decodes to a list.\<close>

definition root_list_fs :: fs where
  "root_list_fs = (with_target [meta_root_text])(sample_backup \<mapsto> [meta_root_text, list_text])"


section \<open>Properties of path normalisation\<close>

lemma of_char_lower_char:
  "(of_char (lower_char c) :: nat) =
     (if (65 \<le> (of_char c :: nat) \<and> (of_char c :: nat) \<le> 90) \<or>
         (192 \<le> (of_char c :: nat) \<and> (of_char c :: nat) \<le> 222 \<and> (of_char c :: nat) \<noteq> 215)
      then of_char c + 32 else of_char c)"
  by (simp add: lower_char_def Let_def)

lemma lower_char_idem: "lower_char (lower_char c) = lower_char c"
proof -
  have "(of_char (lower_char (lower_char c)) :: nat) = of_char (lower_char c)"
    by (simp add: of_char_lower_char)
  then show ?thesis by (simp only: of_char_eq_iff)
qed

lemma lower_char_eq_slash: "(lower_char c = slash) = (c = slash)"
proof -
  have "((of_char (lower_char c) :: nat) = of_char slash) = ((of_char c :: nat) = of_char slash)"
    by (simp add: of_char_lower_char)
  then show ?thesis by (simp only: of_char_eq_iff)
qed

lemma lower_char_eq_qmark: "(lower_char c = CHR ''?'') = (c = CHR ''?'')"
proof -
  have "((of_char (lower_char c) :: nat) = of_char (CHR ''?'')) = ((of_char c :: nat) = of_char (CHR ''?''))"
    by (simp add: of_char_lower_char)
  then show ?thesis by (simp only: of_char_eq_iff)
qed

lemma lower_char_eq_bslash: "(lower_char c = bslash) = (c = bslash)"
proof -
  have "((of_char (lower_char c) :: nat) = of_char bslash) = ((of_char c :: nat) = of_char bslash)"
    by (simp add: of_char_lower_char)
  then show ?thesis by (simp only: of_char_eq_iff)
qed

lemma lower_idem: "lower (lower s) = lower s"
  by (simp add: lower_def lower_char_idem)

lemma lower_drop: "lower (drop n s) = drop n (lower s)"
  by (simp add: lower_def drop_map)

lemma bslash_lower: "(bslash \<in> set (lower s)) = (bslash \<in> set s)"
proof -
  have "(bslash = lower_char c) = (bslash = c)" for c
    using lower_char_eq_bslash [of c] by auto
  then show ?thesis by (induction s) (simp_all add: lower_def)
qed

lemma bslash_replace: "bslash \<notin> set (replace_bslash s)"
  by (induction s) (auto simp: replace_bslash_def)

lemma replace_no_bslash: "bslash \<notin> set s \<Longrightarrow> replace_bslash s = s"
  by (induction s) (auto simp: replace_bslash_def)

lemma replace_lower: "replace_bslash (lower s) = lower (replace_bslash s)"
proof (induction s)
  case Nil
  show ?case by (simp add: replace_bslash_def lower_def)
next
  case (Cons c s)
  have "lower_char slash = slash" by (simp add: lower_char_eq_slash)
  with Cons show ?case
    by (simp add: replace_bslash_def lower_def lower_char_eq_bslash)
qed

lemma rstrip_lower: "rstrip_slash (lower s) = lower (rstrip_slash s)"
proof -
  have "(\<lambda>c. c = slash) \<circ> lower_char = (\<lambda>c. c = slash)"
    by (rule ext) (simp add: lower_char_eq_slash)
  then show ?thesis
    by (simp add: rstrip_slash_def lower_def rev_map dropWhile_map)
qed

lemma rstrip_idem: "rstrip_slash (rstrip_slash s) = rstrip_slash s"
  by (simp add: rstrip_slash_def)

lemma set_rstrip: "set (rstrip_slash s) \<subseteq> set s"
  using set_dropWhileD [of _ "\<lambda>c. c = slash" "rev s"] by (auto simp: rstrip_slash_def)

lemma length_rstrip: "length (rstrip_slash s) \<le> length s"
  using length_dropWhile_le [of "\<lambda>c. c = slash" "rev s"] by (simp add: rstrip_slash_def)

lemma startswith_verbatim: "startswith s ''//?/'' = (\<exists>t. s = ''//?/'' @ t)"
  by (simp add: startswith_def prefix_def)

lemma startswith_lower_verbatim: "startswith (lower s) ''//?/'' = startswith s ''//?/''"
  by (auto simp: startswith_verbatim lower_def map_eq_Cons_conv
      lower_char_eq_slash lower_char_eq_qmark)

lemma startswith_bslash_prefix:
  assumes "bslash \<notin> set s"
  shows "\<not> startswith (lower s) (lower [bslash, bslash, CHR ''?'', bslash])"
proof
  assume h: "startswith (lower s) (lower [bslash, bslash, CHR ''?'', bslash])"
  have "lower_char bslash = bslash" by (simp add: lower_char_eq_bslash)
  with h obtain t where "lower s = bslash # t"
    by (auto simp: startswith_def prefix_def lower_def)
  then have "bslash \<in> set (lower s)" by simp
  with assms show False by (simp add: bslash_lower)
qed

text \<open>What the loop over the two prefixes does to a string without backslashes.\<close>

lemma strip_prefixes_verbatim:
  assumes "bslash \<notin> set s"
  shows "strip_prefixes verbatim_prefixes s = (if startswith s ''//?/'' then drop 4 s else s)"
proof -
  have l: "lower ''//?/'' = ''//?/''" by (simp add: lower_def lower_char_eq_slash lower_char_eq_qmark)
  have d: "bslash \<notin> set (drop 4 s)" using assms by (meson in_set_dropD)
  have n: "length ''//?/'' = 4" by simp
  show ?thesis
    using startswith_bslash_prefix [OF assms] startswith_bslash_prefix [OF d]
    by (simp only: verbatim_prefixes_def strip_prefixes.simps l startswith_lower_verbatim n
        split: if_split) simp
qed

lemma normalize_cwd_eq:
  "normalize_cwd p =
     lower (rstrip_slash (if startswith (replace_bslash p) ''//?/''
                          then drop 4 (replace_bslash p) else replace_bslash p))"
  by (simp add: normalize_cwd_def Let_def strip_prefixes_verbatim [OF bslash_replace])

lemma bslash_normalize: "bslash \<notin> set (normalize_cwd p)"
proof -
  have "bslash \<notin> set (rstrip_slash (drop 4 (replace_bslash p)))"
    using set_rstrip [of "drop 4 (replace_bslash p)"] bslash_replace [of p]
    by (meson in_set_dropD subsetD)
  moreover have "bslash \<notin> set (rstrip_slash (replace_bslash p))"
    using set_rstrip [of "replace_bslash p"] bslash_replace [of p] by blast
  ultimately show ?thesis by (simp add: normalize_cwd_eq bslash_lower)
qed

lemma rstrip_normalize: "rstrip_slash (normalize_cwd p) = normalize_cwd p"
  by (simp add: normalize_cwd_eq rstrip_lower rstrip_idem)

lemma lower_normalize: "lower (normalize_cwd p) = normalize_cwd p"
  by (simp add: normalize_cwd_eq lower_idem)

lemma normalize_cwd_again:
  "normalize_cwd (normalize_cwd p) =
     (if startswith (normalize_cwd p) ''//?/''
      then lower (rstrip_slash (drop 4 (normalize_cwd p))) else normalize_cwd p)"
proof -
  have "replace_bslash (normalize_cwd p) = normalize_cwd p"
    by (rule replace_no_bslash) (rule bslash_normalize)
  then show ?thesis
    using normalize_cwd_eq [of "normalize_cwd p"]
    by (simp add: rstrip_normalize lower_normalize)
qed

lemma normalize_cwd_shorter:
  assumes "startswith (normalize_cwd p) ''//?/''"
  shows "length (normalize_cwd (normalize_cwd p)) < length (normalize_cwd p)"
proof -
  from assms obtain t where "normalize_cwd p = ''//?/'' @ t"
    by (auto simp: startswith_verbatim)
  then have "length (normalize_cwd p) = 4 + length t" by simp
  then have "4 \<le> length (normalize_cwd p)" by simp
  moreover have "length (rstrip_slash (drop 4 (normalize_cwd p))) \<le> length (normalize_cwd p) - 4"
    using length_rstrip [of "drop 4 (normalize_cwd p)"] by simp
  ultimately show ?thesis using assms by (simp add: normalize_cwd_again lower_def)
qed

lemma normalize_replace: "normalize_cwd (replace_bslash p) = normalize_cwd p"
  by (simp add: normalize_cwd_eq replace_no_bslash [OF bslash_replace])

lemma normalize_lower: "normalize_cwd (lower p) = normalize_cwd p"
  by (simp add: normalize_cwd_eq replace_lower startswith_lower_verbatim rstrip_lower
      lower_drop [symmetric] lower_idem)


text \<open>
  Claim C4, as the code has it. Normalising twice gives the same string as normalising
  once exactly when the normalised string does not itself begin with the verbatim prefix
  \<open>//?/\<close>: the prefix is removed once per call, so a path that carries it twice keeps
  one copy after the first call and loses it in the second.
\<close>

theorem normalize_cwd_idempotent_iff:
  "(normalize_cwd (normalize_cwd p) = normalize_cwd p) =
     (\<not> startswith (normalize_cwd p) ''//?/'')"
proof (cases "startswith (normalize_cwd p) ''//?/''")
  case True
  with normalize_cwd_shorter [OF True] show ?thesis by auto
next
  case False
  then show ?thesis by (simp add: normalize_cwd_again)
qed

theorem normalize_cwd_idempotent_witness:
  "normalize_cwd (normalize_cwd ''C:/Work/Proj/'') = normalize_cwd ''C:/Work/Proj/''"
proof -
  have "\<not> startswith (normalize_cwd ''C:/Work/Proj/'') ''//?/''"
    by code_simp
  then show ?thesis
    using normalize_cwd_idempotent_iff [of "''C:/Work/Proj/''"] by blast
qed

theorem normalize_cwd_not_idempotent:
  "normalize_cwd ''//?///?/foo'' = ''//?/foo'' \<and>
   normalize_cwd (normalize_cwd ''//?///?/foo'') = ''foo'' \<and>
   normalize_cwd (normalize_cwd ''//?///?/foo'') \<noteq> normalize_cwd ''//?///?/foo''"
  by code_simp

text \<open>
  Claim C5. The result of normalisation is the input with every backslash replaced by a
  slash, the verbatim prefix \<open>//?/\<close> (which is also what the backslash form of the prefix
  has become) removed once from the start, trailing slashes removed, and the rest in lower
  case. So the result holds no backslash, does not end in a slash and is in lower case;
  two paths that differ only in their separators, or only in the case of their letters
  (the Latin-1 letters among them, as in \<open>/Work/\<close> followed by a capital E with acute),
  normalise to the same string; and \<open>C:\Foo\Bar\<close> and \<open>c:/foo/bar/\<close> normalise to the same
  string.
\<close>

theorem normalize_cwd_separator_case_insensitive:
  "normalize_cwd p =
     lower (rstrip_slash (if startswith (replace_bslash p) ''//?/''
                          then drop 4 (replace_bslash p) else replace_bslash p)) \<and>
   bslash \<notin> set (normalize_cwd p) \<and>
   rstrip_slash (normalize_cwd p) = normalize_cwd p \<and>
   lower (normalize_cwd p) = normalize_cwd p \<and>
   normalize_cwd (replace_bslash p) = normalize_cwd p \<and>
   normalize_cwd (lower p) = normalize_cwd p \<and>
   (replace_bslash p = replace_bslash q \<longrightarrow> normalize_cwd p = normalize_cwd q) \<and>
   (lower p = lower q \<longrightarrow> normalize_cwd p = normalize_cwd q) \<and>
   normalize_cwd (''/Work/'' @ [CHR 0xC9]) = ''/work/'' @ [CHR 0xE9] \<and>
   normalize_cwd (''//?/'' @ p) = lower (rstrip_slash (replace_bslash p)) \<and>
   normalize_cwd ([bslash, bslash, CHR ''?'', bslash] @ p) = lower (rstrip_slash (replace_bslash p)) \<and>
   normalize_cwd [CHR ''C'', CHR '':'', bslash, CHR ''F'', CHR ''o'', CHR ''o'', bslash,
                  CHR ''B'', CHR ''a'', CHR ''r''] = normalize_cwd ''c:/foo/bar/''"
proof -
  have ex: "normalize_cwd [CHR ''C'', CHR '':'', bslash, CHR ''F'', CHR ''o'', CHR ''o'', bslash,
                  CHR ''B'', CHR ''a'', CHR ''r''] = normalize_cwd ''c:/foo/bar/''"
    by code_simp
  have p1: "normalize_cwd (''//?/'' @ p) = lower (rstrip_slash (replace_bslash p))"
    by (simp add: normalize_cwd_eq replace_bslash_def startswith_def)
  have p2: "normalize_cwd ([bslash, bslash, CHR ''?'', bslash] @ p)
              = lower (rstrip_slash (replace_bslash p))"
    by (simp add: normalize_cwd_eq replace_bslash_def startswith_def)
  have s1: "replace_bslash p = replace_bslash q \<longrightarrow> normalize_cwd p = normalize_cwd q"
    using normalize_replace [of p] normalize_replace [of q] by auto
  have s2: "lower p = lower q \<longrightarrow> normalize_cwd p = normalize_cwd q"
    using normalize_lower [of p] normalize_lower [of q] by auto
  have s3: "normalize_cwd (''/Work/'' @ [CHR 0xC9]) = ''/work/'' @ [CHR 0xE9]"
    by code_simp
  show ?thesis
    using normalize_cwd_eq [of p] bslash_normalize [of p] rstrip_normalize [of p]
      lower_normalize [of p] normalize_replace [of p] normalize_lower [of p] s1 s2 s3 ex p1 p2
    by (intro conjI)
qed

theorem normalize_cwd_separator_case_insensitive_witness:
  "normalize_cwd ''//?/C:/Users/Me/'' = ''c:/users/me'' \<and>
   normalize_cwd (lower ''//?/C:/Users/Me/'') = ''c:/users/me'' \<and>
   lower (''/Work/'' @ [CHR 0xC9]) = lower (''/work/'' @ [CHR 0xE9]) \<and>
   normalize_cwd (''/Work/'' @ [CHR 0xC9]) = normalize_cwd (''/work/'' @ [CHR 0xE9])"
proof -
  have a: "normalize_cwd ''//?/C:/Users/Me/'' = ''c:/users/me''"
    by code_simp
  have b: "lower (''/Work/'' @ [CHR 0xC9]) = lower (''/work/'' @ [CHR 0xE9])"
    by code_simp
  have c: "normalize_cwd (lower ''//?/C:/Users/Me/'') = ''c:/users/me''"
    using a normalize_cwd_separator_case_insensitive [of "''//?/C:/Users/Me/''"] by simp
  have d: "normalize_cwd (''/Work/'' @ [CHR 0xC9]) = normalize_cwd (''/work/'' @ [CHR 0xE9])"
    using b normalize_cwd_separator_case_insensitive
      [of "''/Work/'' @ [CHR 0xC9]" "''/work/'' @ [CHR 0xE9]"]
    by blast
  from a c b d show ?thesis by (intro conjI)
qed

section \<open>Properties of merge and deduplication\<close>

lemma dedup_loop_first_seen: "dedup_loop L seen out xs = out @ first_seen L seen xs"
  by (induction xs arbitrary: seen out) simp_all

lemma index_filter_Cons:
  "map (\<lambda>i. (x # xs) ! i)
       (filter (\<lambda>i. f ((x # xs) ! i) \<notin> seen \<union> f ` set (take i (x # xs)))
          [0..<length (x # xs)]) =
   (if f x \<in> seen then [] else [x]) @
   map (\<lambda>i. xs ! i)
       (filter (\<lambda>i. f (xs ! i) \<notin> insert (f x) seen \<union> f ` set (take i xs))
          [0..<length xs])"
proof -
  have upt: "[0..<length (x # xs)] = 0 # map Suc [0..<length xs]"
    by (simp add: upt_conv_Cons map_Suc_upt del: upt_Suc)
  show ?thesis
    by (simp only: upt) (simp add: filter_map comp_def conj_ac)
qed

lemma first_seen_index:
  "first_seen L seen xs =
     map (\<lambda>i. xs ! i)
       (filter (\<lambda>i. json_dumps_sorted L (xs ! i) \<notin> seen \<union> json_dumps_sorted L ` set (take i xs))
          [0..<length xs])"
proof (induction xs arbitrary: seen)
  case Nil
  show ?case by simp
next
  case (Cons x xs)
  show ?case
  proof (cases "json_dumps_sorted L x \<in> seen")
    case True
    then have "insert (json_dumps_sorted L x) seen = seen" by auto
    with True Cons [of seen] show ?thesis
      by (simp only: index_filter_Cons) simp
  next
    case False
    with Cons [of "insert (json_dumps_sorted L x) seen"] show ?thesis
      by (simp only: index_filter_Cons) simp
  qed
qed

lemma dedup_first_occurrences: "dedup_preserve_order L xs = first_occurrences L xs"
  by (simp add: dedup_preserve_order_def dedup_loop_first_seen first_seen_index first_occurrences_def)

lemma first_seen_keys: "json_dumps_sorted L ` set (first_seen L seen xs) = json_dumps_sorted L ` set xs - seen"
  by (induction xs arbitrary: seen) auto

lemma first_seen_distinct: "distinct (map (json_dumps_sorted L) (first_seen L seen xs))"
proof (induction xs arbitrary: seen)
  case Nil
  show ?case by simp
next
  case (Cons x xs)
  then show ?case
    using first_seen_keys [of L "insert (json_dumps_sorted L x) seen" xs] by auto
qed

lemma first_seen_fixed:
  "distinct (map (json_dumps_sorted L) ys) \<Longrightarrow> json_dumps_sorted L ` set ys \<inter> seen = {}
     \<Longrightarrow> first_seen L seen ys = ys"
  by (induction ys arbitrary: seen) auto

lemma first_seen_sublist: "subseq (first_seen L seen xs) xs"
  by (induction xs arbitrary: seen) auto

lemma dedup_idem: "dedup_preserve_order L (dedup_preserve_order L xs) = dedup_preserve_order L xs"
  by (simp add: dedup_preserve_order_def dedup_loop_first_seen first_seen_fixed first_seen_distinct first_seen_keys)


text \<open>
  Claim C2. The merge runs the deduplication over the source records followed by the
  existing records. Its result is the list of first occurrences of that concatenation
  under equality of the canonical serialisation (\<open>json.dumps\<close> with sorted keys): the
  elements whose key no earlier element has, in their original order. So it is a
  subsequence of the concatenation, no key occurs in it twice, and every key of the input
  occurs in it. In particular records that are \<open>[A, B, A, C, B]\<close> under canonical equality
  give \<open>[A, B, C]\<close>.
\<close>

theorem merge_lines_first_occurrences:
  "merge_lines L source_lines existing = first_occurrences L (source_lines @ existing) \<and>
   subseq (merge_lines L source_lines existing) (source_lines @ existing) \<and>
   distinct (map (json_dumps_sorted L) (merge_lines L source_lines existing)) \<and>
   json_dumps_sorted L ` set (merge_lines L source_lines existing) =
     json_dumps_sorted L ` set (source_lines @ existing) \<and>
   (json_dumps_sorted L a' = json_dumps_sorted L a \<and>
    json_dumps_sorted L b' = json_dumps_sorted L b \<and>
    distinct [json_dumps_sorted L a, json_dumps_sorted L b, json_dumps_sorted L c]
    \<longrightarrow> dedup_preserve_order L [a, b, a', c, b'] = [a, b, c])"
proof -
  have m: "merge_lines L source_lines existing = first_seen L {} (source_lines @ existing)"
    by (simp add: merge_lines_def dedup_preserve_order_def dedup_loop_first_seen)
  have 1: "merge_lines L source_lines existing = first_occurrences L (source_lines @ existing)"
    by (simp add: merge_lines_def dedup_first_occurrences)
  have 2: "subseq (merge_lines L source_lines existing) (source_lines @ existing)"
    by (simp only: m first_seen_sublist)
  have 3: "distinct (map (json_dumps_sorted L) (merge_lines L source_lines existing))"
    by (simp only: m first_seen_distinct)
  have 4: "json_dumps_sorted L ` set (merge_lines L source_lines existing) =
     json_dumps_sorted L ` set (source_lines @ existing)"
    by (simp only: m first_seen_keys) simp
  have 5: "json_dumps_sorted L a' = json_dumps_sorted L a \<and>
    json_dumps_sorted L b' = json_dumps_sorted L b \<and>
    distinct [json_dumps_sorted L a, json_dumps_sorted L b, json_dumps_sorted L c]
    \<longrightarrow> dedup_preserve_order L [a, b, a', c, b'] = [a, b, c]"
    by (auto simp: dedup_preserve_order_def)
  from 1 2 3 4 5 show ?thesis by (intro conjI)
qed

theorem merge_lines_first_occurrences_witness:
  "json_dumps_sorted sample_lib msg_one_swapped = json_dumps_sorted sample_lib msg_one \<and>
   distinct [json_dumps_sorted sample_lib msg_one, json_dumps_sorted sample_lib msg_two,
             json_dumps_sorted sample_lib ctx_other] \<and>
   dedup_preserve_order sample_lib [msg_one, msg_two, msg_one_swapped, ctx_other, msg_two] =
     [msg_one, msg_two, ctx_other]"
proof -
  have h1: "json_dumps_sorted sample_lib msg_one_swapped = json_dumps_sorted sample_lib msg_one"
    by code_simp
  have h2: "distinct [json_dumps_sorted sample_lib msg_one, json_dumps_sorted sample_lib msg_two,
             json_dumps_sorted sample_lib ctx_other]"
    by code_simp
  from h1 h2 merge_lines_first_occurrences
    [of sample_lib "[]" "[]" msg_one_swapped msg_one msg_two msg_two ctx_other]
  show ?thesis by blast
qed

text \<open>
  Claim C9. Merging an already deduplicated sequence with the empty sequence gives the
  deduplicated sequence back, element for element.
\<close>

theorem merge_lines_idempotent:
  "merge_lines L (dedup_preserve_order L xs) [] = dedup_preserve_order L xs"
  by (simp add: merge_lines_def dedup_preserve_order_def dedup_loop_first_seen
      first_seen_fixed first_seen_distinct first_seen_keys)

theorem merge_lines_idempotent_witness:
  "merge_lines sample_lib [msg_one, msg_two, ctx_other] [] = [msg_one, msg_two, ctx_other]"
proof -
  have "dedup_preserve_order sample_lib [msg_one, msg_two, msg_one_swapped, ctx_other, msg_two]
          = [msg_one, msg_two, ctx_other]"
    by code_simp
  with merge_lines_idempotent
    [of sample_lib "[msg_one, msg_two, msg_one_swapped, ctx_other, msg_two]"]
  show ?thesis by simp
qed

section \<open>Choice of the backup\<close>

lemma sort_candidates_single: "sort_candidates [c] = [c]"
  by (simp add: sort_candidates_def)

lemma length_sort_candidates: "length (sort_candidates cs) = length cs"
  by (simp add: sort_candidates_def)

lemma last_filter_last: "xs \<noteq> [] \<Longrightarrow> P (last xs) \<Longrightarrow> last (filter P xs) = last xs"
  by (induction xs rule: rev_induct) auto

lemma sorted_last_max:
  assumes "sorted (map f ys)" and "y \<in> set ys"
  shows "f y \<le> f (last ys)"
proof -
  from assms(2) obtain i where i: "i < length ys" "ys ! i = y"
    by (auto simp: in_set_conv_nth)
  then have ne: "ys \<noteq> []" by auto
  have "map f ys ! i \<le> map f ys ! (length ys - 1)"
    using assms(1) i(1) by (intro sorted_nth_mono) auto
  with i ne show ?thesis by (simp add: last_conv_nth)
qed

lemma hd_sort_candidates:
  assumes cs: "cs = pre @ c # post"
    and pre: "\<forall>p\<in>set pre. length (name p) < length (name c)"
    and post: "\<forall>p\<in>set post. length (name p) \<le> length (name c)"
  shows "hd (sort_candidates cs) = c"
proof -
  define f where "f = (\<lambda>p. length (name p))"
  define ys where "ys = sort_key f (rev cs)"
  have ne: "ys \<noteq> []" using cs by (auto simp: ys_def dest: arg_cong [where f = length])
  have srt: "sorted (map f ys)" by (simp add: ys_def)
  have "last ys \<in> set ys" using ne by simp
  then have "last ys \<in> set cs" by (simp add: ys_def)
  then have le: "f (last ys) \<le> f c" using cs pre post by (auto simp: f_def dest: less_imp_le)
  have "c \<in> set ys" using cs by (simp add: ys_def)
  from sorted_last_max [OF srt this] le have eq: "f (last ys) = f c" by simp
  have "filter (\<lambda>y. f y = f c) pre = []" using pre by (auto simp: f_def filter_empty_conv)
  then have "filter (\<lambda>y. f y = f c) (rev cs) = rev (c # filter (\<lambda>y. f y = f c) post)"
    by (simp add: cs rev_filter [symmetric])
  then have "filter (\<lambda>y. f y = f c) ys = rev (c # filter (\<lambda>y. f y = f c) post)"
    by (simp add: ys_def sort_key_stable)
  then have "last (filter (\<lambda>y. f y = f c) ys) = c" by simp
  moreover have "last (filter (\<lambda>y. f y = f c) ys) = last ys"
    using ne eq by (intro last_filter_last)
  ultimately have "last ys = c" by simp
  then show ?thesis using ne by (simp add: sort_candidates_def ys_def f_def hd_rev)
qed

lemma first_longest_split:
  assumes "cs \<noteq> []"
  shows "\<exists>pre c post. cs = pre @ c # post \<and>
           (\<forall>p\<in>set pre. length (name p) < length (name c)) \<and>
           (\<forall>p\<in>set post. length (name p) \<le> length (name c))"
proof -
  define f where "f = (\<lambda>p. length (name p))"
  define M where "M = Max (f ` set cs)"
  have fin: "finite (f ` set cs)" by simp
  have "f ` set cs \<noteq> {}" using assms by simp
  from Max_in [OF fin this] have "M \<in> f ` set cs" by (simp add: M_def)
  then have "\<exists>x\<in>set cs. f x = M" by auto
  then obtain pre c post where sp: "cs = pre @ c # post" "f c = M" "\<forall>p\<in>set pre. f p \<noteq> M"
    by (auto simp: split_list_first_prop_iff)
  have up: "f p \<le> M" if "p \<in> set cs" for p
    using that fin by (simp add: M_def)
  have "\<forall>p\<in>set pre. f p < f c"
  proof
    fix p assume "p \<in> set pre"
    then have "f p \<le> M" "f p \<noteq> M" using up sp by auto
    then show "f p < f c" using sp(2) by simp
  qed
  moreover have "\<forall>p\<in>set post. f p \<le> f c" using up sp by auto
  ultimately show ?thesis using sp(1) unfolding f_def by blast
qed

lemma choose_candidate_hd:
  assumes "cs \<noteq> []"
  shows "choose_candidate cs = Inr (hd (sort_candidates cs))"
proof (cases "1 < length cs")
  case True
  then have "sort_candidates cs \<noteq> []" using length_sort_candidates [of cs] by auto
  with True show ?thesis by (auto simp: choose_candidate_def split: list.splits)
next
  case False
  with assms obtain c where "cs = [c]" by (cases cs) auto
  then show ?thesis by (simp add: choose_candidate_def sort_candidates_single)
qed

lemma choose_candidate_split:
  assumes "candidates \<noteq> []"
  shows "\<exists>pre c post. candidates = pre @ c # post \<and> choose_candidate candidates = Inr c \<and>
           (\<forall>p\<in>set pre. length (name p) < length (name c)) \<and>
           (\<forall>p\<in>set post. length (name p) \<le> length (name c))"
proof -
  from first_longest_split [OF assms] obtain pre c post where
    sp: "candidates = pre @ c # post"
      "\<forall>p\<in>set pre. length (name p) < length (name c)"
      "\<forall>p\<in>set post. length (name p) \<le> length (name c)"
    by blast
  from hd_sort_candidates [OF sp] choose_candidate_hd [OF assms]
  have "choose_candidate candidates = Inr c" by simp
  with sp show ?thesis by blast
qed

lemma choose_candidate_unique_longest:
  assumes "c0 \<in> set candidates"
    and "\<forall>p\<in>set candidates. p \<noteq> c0 \<longrightarrow> length (name p) < length (name c0)"
  shows "choose_candidate candidates = Inr c0"
proof -
  have ne: "candidates \<noteq> []" using assms(1) by auto
  from choose_candidate_split [OF ne] obtain pre c post where
    sp: "candidates = pre @ c # post" "choose_candidate candidates = Inr c"
      "\<forall>p\<in>set pre. length (name p) < length (name c)"
      "\<forall>p\<in>set post. length (name p) \<le> length (name c)"
    by blast
  have "c = c0"
  proof (rule ccontr)
    assume "c \<noteq> c0"
    moreover have "c \<in> set candidates" using sp(1) by simp
    ultimately have lt: "length (name c) < length (name c0)" using assms(2) by blast
    from assms(1) sp(1) \<open>c \<noteq> c0\<close> have "c0 \<in> set pre \<or> c0 \<in> set post" by auto
    with sp(3,4) lt show False by auto
  qed
  with sp(2) show ?thesis by simp
qed


text \<open>
  Claim C8. Of a list of candidates that is not empty the repair reads the first one, in
  the order of the directory listing, among those with the longest file name: every
  candidate listed before it has a strictly shorter name and none after it has a longer
  one. So the choice is a function of the listing, and a candidate whose name is strictly
  longer than every other candidate's is the one chosen.
\<close>

theorem choose_candidate_longest:
  assumes "candidates \<noteq> []"
  shows "\<exists>pre c post. candidates = pre @ c # post \<and> choose_candidate candidates = Inr c \<and>
           (\<forall>p\<in>set pre. length (name p) < length (name c)) \<and>
           (\<forall>p\<in>set post. length (name p) \<le> length (name c)) \<and>
           (\<forall>c0\<in>set candidates.
              (\<forall>p\<in>set candidates. p \<noteq> c0 \<longrightarrow> length (name p) < length (name c0))
              \<longrightarrow> c0 = c)"
proof -
  from choose_candidate_split [OF assms] obtain pre c post where
    sp: "candidates = pre @ c # post" "choose_candidate candidates = Inr c"
      "\<forall>p\<in>set pre. length (name p) < length (name c)"
      "\<forall>p\<in>set post. length (name p) \<le> length (name c)"
    by blast
  have "\<forall>c0\<in>set candidates.
          (\<forall>p\<in>set candidates. p \<noteq> c0 \<longrightarrow> length (name p) < length (name c0)) \<longrightarrow> c0 = c"
    using choose_candidate_unique_longest [of _ candidates] sp(2) by auto
  with sp show ?thesis by blast
qed

theorem choose_candidate_longest_witness:
  "[sample_backup, sample_backup_long] \<noteq> [] \<and>
   choose_candidate [sample_backup, sample_backup_long] = Inr sample_backup_long \<and>
   length (name sample_backup) < length (name sample_backup_long)"
proof -
  have ne: "[sample_backup, sample_backup_long] \<noteq> []" by simp
  have lt: "length (name sample_backup) < length (name sample_backup_long)"
    by (simp add: sample_backup_def sample_backup_long_def)
  from choose_candidate_longest [OF ne] obtain c where
    c: "choose_candidate [sample_backup, sample_backup_long] = Inr c"
      "\<forall>c0\<in>set [sample_backup, sample_backup_long].
         (\<forall>p\<in>set [sample_backup, sample_backup_long].
            p \<noteq> c0 \<longrightarrow> length (name p) < length (name c0)) \<longrightarrow> c0 = c"
    by blast
  from c(2) lt have "sample_backup_long = c" by simp
  with c(1) lt show ?thesis by simp
qed

section \<open>Properties of identity rehydration\<close>

lemma get_path_type: "get_path [''type''] (JObj kvs) = map_of kvs ''type''"
  by (simp split: option.splits)

lemma get_path_update_same: "get_path (k # ks) (JObj (AList.update k v kvs)) = get_path ks v"
  by (simp add: update_conv')

lemma get_path_update_other:
  "k \<noteq> k' \<Longrightarrow> get_path (k # ks) (JObj (AList.update k' v kvs)) = get_path (k # ks) (JObj kvs)"
  by (simp add: update_conv')

lemma get_path_default:
  assumes "map_of kvs k = None \<and> sub = [] \<or> map_of kvs k = Some (JObj sub)" and "ks \<noteq> []"
  shows "get_path (k # ks) (JObj kvs) = get_path ks (JObj sub)"
  using assms by (cases ks) auto

lemma keys_update: "prefix (map fst kvs) (map fst (AList.update k v kvs))"
  by (simp add: update_keys)

lemma is_dictE: "is_dict v \<Longrightarrow> \<exists>kvs. v = JObj kvs"
  by (cases v) (simp_all add: is_dict_def)

lemma record_payload_meta:
  assumes "map_of kvs ''type'' = Some (JStr ''session_meta'')" and "is_record (JObj kvs)"
  shows "\<exists>pkvs mkvs.
     (map_of kvs ''payload'' = None \<and> pkvs = [] \<or> map_of kvs ''payload'' = Some (JObj pkvs)) \<and>
     (map_of pkvs ''meta'' = None \<and> mkvs = [] \<or> map_of pkvs ''meta'' = Some (JObj mkvs))"
proof (cases "map_of kvs ''payload''")
  case None
  then show ?thesis by simp
next
  case (Some pl)
  show ?thesis
  proof (cases pl)
    case (JObj pkvs)
    show ?thesis
    proof (cases "map_of pkvs ''meta''")
      case None
      with Some JObj show ?thesis by simp
    next
      case (Some m)
      with assms \<open>map_of kvs ''payload'' = Some pl\<close> JObj have "is_dict m" by simp
      then obtain mkvs where "m = JObj mkvs" by (auto dest: is_dictE)
      with Some \<open>map_of kvs ''payload'' = Some pl\<close> JObj show ?thesis by simp
    qed
  qed (use assms Some in simp_all)
qed

lemma record_payload:
  assumes "map_of kvs ''type'' = Some (JStr ''turn_context'')" and "is_record (JObj kvs)"
  shows "\<exists>pkvs. map_of kvs ''payload'' = None \<and> pkvs = [] \<or> map_of kvs ''payload'' = Some (JObj pkvs)"
proof (cases "map_of kvs ''payload''")
  case None
  then show ?thesis by simp
next
  case (Some pl)
  with assms have "is_dict pl" by simp
  then obtain pkvs where "pl = JObj pkvs" by (auto dest: is_dictE)
  with Some show ?thesis by simp
qed

lemma update_session_meta:
  assumes "map_of kvs ''type'' = Some (JStr ''session_meta'')"
    and "map_of kvs ''payload'' = None \<and> pkvs = [] \<or> map_of kvs ''payload'' = Some (JObj pkvs)"
    and "map_of pkvs ''meta'' = None \<and> mkvs = [] \<or> map_of pkvs ''meta'' = Some (JObj mkvs)"
  shows "update_cwd_and_id (JObj kvs) c i =
       Inr (JObj (AList.update ''payload''
             (JObj (AList.update ''meta''
                (JObj (AList.update ''id'' i (AList.update ''cwd'' c mkvs))) pkvs)) kvs))"
  using assms by (auto simp: update_cwd_and_id_def and_then_def)

lemma update_turn_context:
  assumes "map_of kvs ''type'' = Some (JStr ''turn_context'')"
    and "map_of kvs ''payload'' = None \<and> pkvs = [] \<or> map_of kvs ''payload'' = Some (JObj pkvs)"
  shows "update_cwd_and_id (JObj kvs) c i =
       Inr (JObj (AList.update ''payload'' (JObj (AList.update ''cwd'' c pkvs)) kvs))"
  using assms by (auto simp: update_cwd_and_id_def and_then_def)

lemma update_other_kind:
  assumes "map_of kvs ''type'' \<noteq> Some (JStr ''session_meta'')"
    and "map_of kvs ''type'' \<noteq> Some (JStr ''turn_context'')"
  shows "update_cwd_and_id (JObj kvs) c i = Inr (JObj kvs)"
proof (cases "map_of kvs ''type''")
  case None
  then show ?thesis by (simp add: update_cwd_and_id_def and_then_def)
next
  case (Some t)
  with assms show ?thesis by (simp add: update_cwd_and_id_def and_then_def)
qed


lemma frame_session_meta:
  assumes pl: "map_of kvs ''payload'' = None \<and> pkvs = [] \<or> map_of kvs ''payload'' = Some (JObj pkvs)"
    and mt: "map_of pkvs ''meta'' = None \<and> mkvs = [] \<or> map_of pkvs ''meta'' = Some (JObj mkvs)"
    and q: "\<not> prefix q [''payload'', ''meta'', ''cwd'']" "\<not> prefix [''payload'', ''meta'', ''cwd''] q"
      "\<not> prefix q [''payload'', ''meta'', ''id'']" "\<not> prefix [''payload'', ''meta'', ''id''] q"
  shows "get_path q (JObj (AList.update ''payload''
             (JObj (AList.update ''meta''
                (JObj (AList.update ''id'' i (AList.update ''cwd'' c mkvs))) pkvs)) kvs))
         = get_path q (JObj kvs)"
proof (cases q)
  case Nil
  with q show ?thesis by simp
next
  case q1: (Cons k ks)
  show ?thesis
  proof (cases "k = ''payload''")
    case False
    then show ?thesis unfolding q1 by (rule get_path_update_other)
  next
    case kp: True
    show ?thesis
    proof (cases ks)
      case Nil
      with q q1 kp show ?thesis by simp
    next
      case q2: (Cons k2 ks2)
      have old: "get_path q (JObj kvs) = get_path ks (JObj pkvs)"
        unfolding q1 kp using pl by (rule get_path_default) (simp add: q2)
      show ?thesis
      proof (cases "k2 = ''meta''")
        case False
        then show ?thesis
          unfolding old unfolding q1 kp get_path_update_same q2 by (rule get_path_update_other)
      next
        case km: True
        show ?thesis
        proof (cases ks2)
          case Nil
          with q q1 kp q2 km show ?thesis by simp
        next
          case q3: (Cons k3 ks3)
          from q q1 kp q2 km q3 have k3: "k3 \<noteq> ''cwd''" "k3 \<noteq> ''id''" by auto
          have old2: "get_path ks (JObj pkvs) = get_path ks2 (JObj mkvs)"
            unfolding q2 km using mt by (rule get_path_default) (simp add: q3)
          show ?thesis
            unfolding old old2 unfolding q1 kp get_path_update_same q2 km q3
            using k3 by (simp add: update_conv')
        qed
      qed
    qed
  qed
qed

lemma frame_turn_context:
  assumes pl: "map_of kvs ''payload'' = None \<and> pkvs = [] \<or> map_of kvs ''payload'' = Some (JObj pkvs)"
    and q: "\<not> prefix q [''payload'', ''cwd'']" "\<not> prefix [''payload'', ''cwd''] q"
  shows "get_path q (JObj (AList.update ''payload'' (JObj (AList.update ''cwd'' c pkvs)) kvs))
         = get_path q (JObj kvs)"
proof (cases q)
  case Nil
  with q show ?thesis by simp
next
  case q1: (Cons k ks)
  show ?thesis
  proof (cases "k = ''payload''")
    case False
    then show ?thesis unfolding q1 by (rule get_path_update_other)
  next
    case kp: True
    show ?thesis
    proof (cases ks)
      case Nil
      with q q1 kp show ?thesis by simp
    next
      case q2: (Cons k2 ks2)
      from q q1 kp q2 have k2: "k2 \<noteq> ''cwd''" by auto
      have old: "get_path q (JObj kvs) = get_path ks (JObj pkvs)"
        unfolding q1 kp using pl by (rule get_path_default) (simp add: q2)
      show ?thesis
        unfolding old unfolding q1 kp get_path_update_same q2
        using k2 by (simp add: update_conv')
    qed
  qed
qed


lemma keys_at_Nil: "keys_at [] (JObj kvs) = map fst kvs"
  by (simp add: keys_at_def)

lemma keys_at_default:
  assumes "map_of kvs k = None \<and> sub = [] \<or> map_of kvs k = Some (JObj sub)"
  shows "keys_at (k # ks) (JObj kvs) = keys_at ks (JObj sub)"
proof (cases ks)
  case Nil
  with assms show ?thesis by (auto simp: keys_at_def)
next
  case (Cons a list)
  then have "ks \<noteq> []" by simp
  from get_path_default [OF assms this] show ?thesis by (simp add: keys_at_def)
qed

lemma keys_at_update_same: "keys_at (k # ks) (JObj (AList.update k v kvs)) = keys_at ks v"
  by (simp add: keys_at_def get_path_update_same del: get_path.simps)

lemma prefix_three:
  "prefix q [a, b, c] = (q = [] \<or> q = [a] \<or> q = [a, b] \<or> q = [a, b, c])"
  by (auto simp: prefix_Cons)

lemma prefix_two: "prefix q [a, b] = (q = [] \<or> q = [a] \<or> q = [a, b])"
  by (auto simp: prefix_Cons)

lemma keys_session_meta:
  assumes pl: "map_of kvs ''payload'' = None \<and> pkvs = [] \<or> map_of kvs ''payload'' = Some (JObj pkvs)"
    and mt: "map_of pkvs ''meta'' = None \<and> mkvs = [] \<or> map_of pkvs ''meta'' = Some (JObj mkvs)"
    and q: "\<not> prefix [''payload'', ''meta'', ''cwd''] q" "\<not> prefix [''payload'', ''meta'', ''id''] q"
  shows "prefix (keys_at q (JObj kvs))
           (keys_at q (JObj (AList.update ''payload''
             (JObj (AList.update ''meta''
                (JObj (AList.update ''id'' i (AList.update ''cwd'' c mkvs))) pkvs)) kvs)))"
proof (cases "prefix q [''payload'', ''meta'', ''cwd''] \<or> prefix q [''payload'', ''meta'', ''id'']")
  case False
  with frame_session_meta [OF pl mt _ q(1) _ q(2), of i c] show ?thesis
    by (simp add: keys_at_def del: get_path.simps)
next
  case True
  with q have "q = [] \<or> q = [''payload''] \<or> q = [''payload'', ''meta'']"
    by (auto simp: prefix_three)
  then consider "q = []" | "q = [''payload'']" | "q = [''payload'', ''meta'']" by blast
  then show ?thesis
  proof cases
    case 1
    then show ?thesis by (simp only: keys_at_Nil keys_update)
  next
    case 2
    show ?thesis
      unfolding 2 keys_at_default [OF pl] keys_at_update_same
      by (simp only: keys_at_Nil keys_update)
  next
    case 3
    have "prefix (map fst mkvs) (map fst (AList.update ''cwd'' c mkvs))" by (rule keys_update)
    also have "prefix \<dots> (map fst (AList.update ''id'' i (AList.update ''cwd'' c mkvs)))"
      by (rule keys_update)
    finally show ?thesis
      unfolding 3 keys_at_default [OF pl] keys_at_default [OF mt] keys_at_update_same
      by (simp only: keys_at_Nil)
  qed
qed

lemma keys_turn_context:
  assumes pl: "map_of kvs ''payload'' = None \<and> pkvs = [] \<or> map_of kvs ''payload'' = Some (JObj pkvs)"
    and q: "\<not> prefix [''payload'', ''cwd''] q"
  shows "prefix (keys_at q (JObj kvs))
           (keys_at q (JObj (AList.update ''payload'' (JObj (AList.update ''cwd'' c pkvs)) kvs)))"
proof (cases "prefix q [''payload'', ''cwd'']")
  case False
  with frame_turn_context [OF pl _ q, of c] show ?thesis
    by (simp add: keys_at_def del: get_path.simps)
next
  case True
  with q have "q = [] \<or> q = [''payload'']"
    by (auto simp: prefix_two)
  then consider "q = []" | "q = [''payload'']" by blast
  then show ?thesis
  proof cases
    case 1
    then show ?thesis by (simp only: keys_at_Nil keys_update)
  next
    case 2
    show ?thesis
      unfolding 2 keys_at_default [OF pl] keys_at_update_same
      by (simp only: keys_at_Nil keys_update)
  qed
qed


text \<open>
  Claim C6. On a record, rehydration returns a record. For a \<open>session_meta\<close> record the
  result has the replacement values at \<open>payload.meta.cwd\<close> and \<open>payload.meta.id\<close>, for a
  \<open>turn_context\<close> record at \<open>payload.cwd\<close>, and a record of any other kind is returned as
  it is. In every case the value at each path that neither leads to an identity field
  nor lies below one is the same before and after, and at each path that does not lie
  at or below an identity field the field names keep their order (a field that had to be
  created comes last).
\<close>

theorem update_cwd_and_id_frame:
  assumes "is_record r"
  shows "\<exists>r'. update_cwd_and_id r new_cwd new_cid = Inr r' \<and>
     (get_path [''type''] r = Some (JStr ''session_meta'') \<longrightarrow>
        get_path [''payload'', ''meta'', ''cwd''] r' = Some new_cwd \<and>
        get_path [''payload'', ''meta'', ''id''] r' = Some new_cid) \<and>
     (get_path [''type''] r = Some (JStr ''turn_context'') \<longrightarrow>
        get_path [''payload'', ''cwd''] r' = Some new_cwd) \<and>
     (identity_paths r = [] \<longrightarrow> r' = r) \<and>
     (\<forall>q. (\<forall>ip\<in>set (identity_paths r). \<not> prefix q ip \<and> \<not> prefix ip q)
          \<longrightarrow> get_path q r' = get_path q r) \<and>
     (\<forall>q. (\<forall>ip\<in>set (identity_paths r). \<not> prefix ip q)
          \<longrightarrow> prefix (keys_at q r) (keys_at q r'))"
proof -
  from assms obtain kvs where r: "r = JObj kvs" by (cases r) simp_all
  have ty: "get_path [''type''] r = map_of kvs ''type''" unfolding r by (rule get_path_type)
  consider (meta) "map_of kvs ''type'' = Some (JStr ''session_meta'')"
    | (ctx) "map_of kvs ''type'' = Some (JStr ''turn_context'')"
    | (other) "map_of kvs ''type'' \<noteq> Some (JStr ''session_meta'')"
        "map_of kvs ''type'' \<noteq> Some (JStr ''turn_context'')"
    by blast
  then show ?thesis
  proof cases
    case meta
    from record_payload_meta [OF meta assms [unfolded r]] obtain pkvs mkvs where
      pl: "map_of kvs ''payload'' = None \<and> pkvs = [] \<or> map_of kvs ''payload'' = Some (JObj pkvs)"
      and mt: "map_of pkvs ''meta'' = None \<and> mkvs = [] \<or> map_of pkvs ''meta'' = Some (JObj mkvs)"
      by blast
    define r' where "r' = JObj (AList.update ''payload''
             (JObj (AList.update ''meta''
                (JObj (AList.update ''id'' new_cid (AList.update ''cwd'' new_cwd mkvs))) pkvs)) kvs)"
    have u: "update_cwd_and_id r new_cwd new_cid = Inr r'"
      unfolding r r'_def by (rule update_session_meta [OF meta pl mt])
    have ips: "identity_paths r = [[''payload'', ''meta'', ''cwd''], [''payload'', ''meta'', ''id'']]"
      using meta by (simp add: identity_paths_def ty del: get_path.simps)
    have v: "get_path [''payload'', ''meta'', ''cwd''] r' = Some new_cwd"
      "get_path [''payload'', ''meta'', ''id''] r' = Some new_cid"
      by (simp_all add: r'_def update_conv')
    have f: "\<forall>q. (\<forall>ip\<in>set (identity_paths r). \<not> prefix q ip \<and> \<not> prefix ip q)
          \<longrightarrow> get_path q r' = get_path q r"
      unfolding ips unfolding r r'_def using frame_session_meta [OF pl mt] by simp
    have k: "\<forall>q. (\<forall>ip\<in>set (identity_paths r). \<not> prefix ip q)
          \<longrightarrow> prefix (keys_at q r) (keys_at q r')"
      unfolding ips unfolding r r'_def using keys_session_meta [OF pl mt] by simp
    from u v f k meta ips show ?thesis by (simp add: ty del: get_path.simps)
  next
    case ctx
    from record_payload [OF ctx assms [unfolded r]] obtain pkvs where
      pl: "map_of kvs ''payload'' = None \<and> pkvs = [] \<or> map_of kvs ''payload'' = Some (JObj pkvs)"
      by blast
    define r' where
      "r' = JObj (AList.update ''payload'' (JObj (AList.update ''cwd'' new_cwd pkvs)) kvs)"
    have u: "update_cwd_and_id r new_cwd new_cid = Inr r'"
      unfolding r r'_def by (rule update_turn_context [OF ctx pl])
    have ips: "identity_paths r = [[''payload'', ''cwd'']]"
      using ctx by (simp add: identity_paths_def ty del: get_path.simps)
    have v: "get_path [''payload'', ''cwd''] r' = Some new_cwd"
      by (simp add: r'_def update_conv')
    have f: "\<forall>q. (\<forall>ip\<in>set (identity_paths r). \<not> prefix q ip \<and> \<not> prefix ip q)
          \<longrightarrow> get_path q r' = get_path q r"
      unfolding ips unfolding r r'_def using frame_turn_context [OF pl] by simp
    have k: "\<forall>q. (\<forall>ip\<in>set (identity_paths r). \<not> prefix ip q)
          \<longrightarrow> prefix (keys_at q r) (keys_at q r')"
      unfolding ips unfolding r r'_def using keys_turn_context [OF pl] by simp
    from u v f k ctx ips show ?thesis by (simp add: ty del: get_path.simps)
  next
    case other
    have u: "update_cwd_and_id r new_cwd new_cid = Inr r"
      unfolding r by (rule update_other_kind [OF other])
    from u other show ?thesis by (simp add: ty del: get_path.simps)
  qed
qed

theorem update_cwd_and_id_frame_witness:
  "is_record meta_old \<and>
   (\<exists>r'. update_cwd_and_id meta_old (JStr ''/work/proj'') (JStr ''T1'') = Inr r' \<and>
      get_path [''payload'', ''meta'', ''id''] r' = Some (JStr ''T1'') \<and>
      get_path [''type''] r' = get_path [''type''] meta_old)"
proof -
  have rec: "is_record meta_old" by code_simp
  have ty: "get_path [''type''] meta_old = Some (JStr ''session_meta'')" by code_simp
  have ips: "identity_paths meta_old =
      [[''payload'', ''meta'', ''cwd''], [''payload'', ''meta'', ''id'']]"
    by code_simp
  from update_cwd_and_id_frame [OF rec, of "JStr ''/work/proj''" "JStr ''T1''"]
  obtain r' where r':
    "update_cwd_and_id meta_old (JStr ''/work/proj'') (JStr ''T1'') = Inr r'"
    "get_path [''type''] meta_old = Some (JStr ''session_meta'') \<longrightarrow>
        get_path [''payload'', ''meta'', ''cwd''] r' = Some (JStr ''/work/proj'') \<and>
        get_path [''payload'', ''meta'', ''id''] r' = Some (JStr ''T1'')"
    "\<forall>q. (\<forall>ip\<in>set (identity_paths meta_old). \<not> prefix q ip \<and> \<not> prefix ip q)
          \<longrightarrow> get_path q r' = get_path q meta_old"
    by blast
  from r'(3) have "get_path [''type''] r' = get_path [''type''] meta_old"
    unfolding ips by simp
  with rec r'(1) r'(2) ty show ?thesis by blast
qed

section \<open>Properties of the scanner\<close>

lemma new_cwd_of_record:
  "new_cwd_of r = (if is_record r then Inr (cwd_value r) else Inl AttributeError)"
proof (cases r)
  case (JObj kvs)
  show ?thesis
    unfolding JObj
    by (auto simp: new_cwd_of_def and_then_def cwd_value_def declared_cwd_def is_dict_def
        split: option.splits json.splits)
qed (simp_all add: new_cwd_of_def and_then_def)

lemma parsed_records_Nil: "parsed_records L [] = []"
  by (simp add: parsed_records_def map_filter_simps)

lemma parsed_records_Cons:
  "parsed_records L (raw # raws) =
     (if strip raw = [] then parsed_records L raws
      else case json_loads L (strip raw) of
        None \<Rightarrow> parsed_records L raws
      | Some r \<Rightarrow> r # parsed_records L raws)"
  by (simp add: parsed_records_def map_filter_simps split: option.splits)

lemma active_context_snoc:
  "active_context L (rs @ [r]) =
     (if truthy (cwd_value r) then Some (normalize_cwd (py_str L (cwd_value r)))
      else active_context L rs)"
  by (simp add: active_context_def)

lemma index_filter_snoc:
  "map (\<lambda>k. (rs @ [r]) ! k) (filter (\<lambda>k. P (take (Suc k) (rs @ [r]))) [0..<length (rs @ [r])]) =
   map (\<lambda>k. rs ! k) (filter (\<lambda>k. P (take (Suc k) rs)) [0..<length rs]) @
   (if P (rs @ [r]) then [r] else [])"
proof -
  have a: "filter (\<lambda>k. P (take (Suc k) (rs @ [r]))) [0..<length rs] =
           filter (\<lambda>k. P (take (Suc k) rs)) [0..<length rs]"
    by (rule filter_cong) auto
  have b: "map (\<lambda>k. (rs @ [r]) ! k) (filter (\<lambda>k. P (take (Suc k) rs)) [0..<length rs]) =
           map (\<lambda>k. rs ! k) (filter (\<lambda>k. P (take (Suc k) rs)) [0..<length rs])"
    by (rule map_cong) (auto simp: nth_append)
  have c: "[0..<length (rs @ [r])] = [0..<length rs] @ [length rs]" by simp
  show ?thesis unfolding c filter_append map_append a b by simp
qed

lemma context_filtered_snoc:
  "context_filtered L t (rs @ [r]) =
     context_filtered L t rs @
     (if t \<noteq> [] \<and> active_context L (rs @ [r]) = Some t then [r] else [])"
  unfolding context_filtered_def
  by (rule index_filter_snoc [of rs r "\<lambda>xs. t \<noteq> [] \<and> active_context L xs = Some t"])

lemma context_filtered_Nil: "context_filtered L t [] = []"
  by (simp add: context_filtered_def)

lemma active_context_Nil: "active_context L [] = None"
  by (simp add: active_context_def)

lemma scan_step_record:
  assumes "strip raw \<noteq> []" and "json_loads L (strip raw) = Some r"
  shows "scan_step L t (active_context L pre, context_filtered L t pre) raw =
           (if is_record r
            then Inr (active_context L (pre @ [r]), context_filtered L t (pre @ [r]))
            else Inl AttributeError)"
  using assms
  by (auto simp: scan_step_def new_cwd_of_record and_then_def Let_def
      active_context_snoc context_filtered_snoc)

lemma scan_step_skip:
  assumes "strip raw = [] \<or> json_loads L (strip raw) = None"
  shows "scan_step L t st raw = Inr st"
  using assms by (auto simp: scan_step_def)

lemma scan_step_error:
  "scan_step L t st raw = Inl e \<Longrightarrow> e = AttributeError"
  by (auto simp: scan_step_def new_cwd_of_record and_then_def Let_def split: if_splits option.splits)

lemma scan_lines_records:
  assumes "list_all is_record (parsed_records L raws)"
  shows "scan_lines L t (active_context L pre, context_filtered L t pre) raws =
           Inr (active_context L (pre @ parsed_records L raws),
                context_filtered L t (pre @ parsed_records L raws))"
  using assms
proof (induction raws arbitrary: pre)
  case Nil
  show ?case by (simp add: parsed_records_Nil)
next
  case (Cons raw raws)
  show ?case
  proof (cases "strip raw = [] \<or> json_loads L (strip raw) = None")
    case True
    then have "parsed_records L (raw # raws) = parsed_records L raws"
      by (auto simp: parsed_records_Cons)
    with Cons True show ?thesis by (simp add: scan_step_skip)
  next
    case False
    then obtain r where r: "strip raw \<noteq> []" "json_loads L (strip raw) = Some r" by auto
    then have p: "parsed_records L (raw # raws) = r # parsed_records L raws"
      by (simp add: parsed_records_Cons)
    with Cons.prems have "is_record r" "list_all is_record (parsed_records L raws)" by simp_all
    with Cons.IH [of "pre @ [r]"] scan_step_record [OF r, of t pre] show ?thesis
      by (simp add: p)
  qed
qed

lemma scan_lines_error:
  assumes "\<not> list_all is_record (parsed_records L raws)"
  shows "scan_lines L t (active_context L pre, context_filtered L t pre) raws = Inl AttributeError"
  using assms
proof (induction raws arbitrary: pre)
  case Nil
  then show ?case by (simp add: parsed_records_Nil)
next
  case (Cons raw raws)
  show ?case
  proof (cases "strip raw = [] \<or> json_loads L (strip raw) = None")
    case True
    then have "parsed_records L (raw # raws) = parsed_records L raws"
      by (auto simp: parsed_records_Cons)
    with Cons True show ?thesis by (simp add: scan_step_skip)
  next
    case False
    then obtain r where r: "strip raw \<noteq> []" "json_loads L (strip raw) = Some r" by auto
    then have p: "parsed_records L (raw # raws) = r # parsed_records L raws"
      by (simp add: parsed_records_Cons)
    show ?thesis
    proof (cases "is_record r")
      case True
      with Cons.prems p have "\<not> list_all is_record (parsed_records L raws)" by simp
      with Cons.IH [of "pre @ [r]"] scan_step_record [OF r, of t pre] True show ?thesis
        by simp
    next
      case False
      with scan_step_record [OF r, of t pre] show ?thesis by simp
    qed
  qed
qed

lemma collect_characterised:
  "collect_cwd_filtered_lines L fs src target =
     (case fs src of
        None \<Rightarrow> Inr []
      | Some raws \<Rightarrow>
          if list_all is_record (parsed_records L raws)
          then Inr (context_filtered L target (parsed_records L raws))
          else Inl AttributeError)"
  using scan_lines_records [of L _ target "[]"] scan_lines_error [of L _ target "[]"]
  by (auto simp: collect_cwd_filtered_lines_def active_context_Nil context_filtered_Nil
      split: option.splits)


text \<open>
  Claim C1, as the code has it. A backup that does not exist gives no records. When
  every line that decodes is a record, the scanner returns the records whose active
  context, this record read, is the target path and is not the empty string, in their
  original order; the active context is the normalised working directory of the most
  recent \<open>session_meta\<close> or \<open>turn_context\<close> record whose working directory is true as a
  condition (not missing, \<open>null\<close> or empty), and every other record inherits it. When
  some line decodes to a value that is not a record, the scanner raises.
\<close>

theorem collect_cwd_filtered_lines_context:
  "collect_cwd_filtered_lines L fs src_path target =
     (case fs src_path of
        None \<Rightarrow> Inr []
      | Some raws \<Rightarrow>
          if list_all is_record (parsed_records L raws)
          then Inr (context_filtered L target (parsed_records L raws))
          else Inl AttributeError) \<and>
   active_context L [] = None \<and>
   active_context L (rs @ [r]) =
     (if truthy (cwd_value r) then Some (normalize_cwd (py_str L (cwd_value r)))
      else active_context L rs)"
  using collect_characterised [of L fs src_path target] active_context_Nil [of L]
    active_context_snoc [of L rs r]
  by (intro conjI)

theorem collect_cwd_filtered_lines_context_witness:
  "sample_fs sample_backup = Some [meta_old_text, msg_one_text, ctx_other_text, msg_two_text] \<and>
   parsed_records sample_lib [meta_old_text, msg_one_text, ctx_other_text, msg_two_text] =
     [meta_old, msg_one, ctx_other, msg_two] \<and>
   collect_cwd_filtered_lines sample_lib sample_fs sample_backup ''/work/proj'' =
     Inr [meta_old, msg_one]"
proof -
  have f: "sample_fs sample_backup =
      Some [meta_old_text, msg_one_text, ctx_other_text, msg_two_text]"
    by code_simp
  have p: "parsed_records sample_lib [meta_old_text, msg_one_text, ctx_other_text, msg_two_text] =
     [meta_old, msg_one, ctx_other, msg_two]"
    by code_simp
  have r: "list_all is_record [meta_old, msg_one, ctx_other, msg_two]"
    by code_simp
  have c: "context_filtered sample_lib ''/work/proj'' [meta_old, msg_one, ctx_other, msg_two] =
     [meta_old, msg_one]"
    by code_simp
  have "collect_cwd_filtered_lines sample_lib sample_fs sample_backup ''/work/proj'' =
     Inr [meta_old, msg_one]"
    using collect_cwd_filtered_lines_context
      [of sample_lib sample_fs sample_backup "''/work/proj''" "[]" JNull, THEN conjunct1]
    by (simp only: f option.case p r if_True c)
  with f p show ?thesis by (intro conjI)
qed

text \<open>
  The two places where the scanner leaves the wording of the claim. With the root
  directory as the working directory of the target, the target path is the empty string:
  the record that declares that directory has an active context equal to the target path,
  and the scanner does not return it. And a \<open>turn_context\<close> record whose working directory
  is the empty string declares one, yet the scanner keeps the context of the records
  before it, so that it returns this record and those after it.
\<close>

theorem collect_cwd_filtered_lines_not_spec:
  "normalize_cwd ''/'' = [] \<and>
   spec_filtered sample_lib [] (parsed_records sample_lib [meta_root_text]) = [meta_root] \<and>
   collect_cwd_filtered_lines sample_lib (with_backup [meta_root_text]) sample_backup [] = Inr [] \<and>
   spec_filtered sample_lib ''/work/proj''
     (parsed_records sample_lib [meta_old_text, ctx_empty_text, msg_one_text]) = [meta_old] \<and>
   collect_cwd_filtered_lines sample_lib
     (with_backup [meta_old_text, ctx_empty_text, msg_one_text]) sample_backup ''/work/proj'' =
     Inr [meta_old, ctx_empty, msg_one]"
  by code_simp

section \<open>Properties of the per-file repair\<close>

lemma ts_prefix_nonempty: "ts_prefix_from_name p = Some ts \<Longrightarrow> ts \<noteq> []"
  by (auto simp: ts_prefix_from_name_def Let_def split: if_splits)

lemma identity_file: "identity_present L fs p \<Longrightarrow> \<exists>raws. fs p = Some raws"
  by (cases "fs p") (simp_all add: identity_present_def extract_cwd_and_id_from_jsonl_def)

lemma process_no_identity:
  "\<not> identity_present L fs p \<Longrightarrow> process_jsonl L fs p dry = (Inr False, fs)"
  by (simp add: process_jsonl_def identity_present_def Let_def)

lemma process_no_timestamp:
  "ts_prefix_from_name p = None \<Longrightarrow> process_jsonl L fs p dry = (Inr False, fs)"
  by (simp add: process_jsonl_def Let_def)

lemma process_no_candidate:
  "ts_prefix_from_name p = Some ts \<Longrightarrow> backup_candidates L fs p ts = [] \<Longrightarrow>
     process_jsonl L fs p dry = (Inr False, fs)"
  by (simp add: process_jsonl_def Let_def backup_candidates_def)

lemma choose_candidate_Nil: "choose_candidate [] = Inl IndexError"
  by (simp add: choose_candidate_def)

lemma write_loop_eq:
  "write_loop L written merged =
     (if list_all (encodable L) merged then None else Some UnicodeEncodeError,
      written @ write_lines L (takeWhile (encodable L) merged))"
  by (induction merged arbitrary: written) (simp_all add: encodable_def write_lines_def)

lemma write_file_eq:
  "write_file L fs p merged =
     (if list_all (encodable L) merged then Inr True else Inl UnicodeEncodeError,
      fs(p \<mapsto> write_lines L (takeWhile (encodable L) merged)))"
  by (simp add: write_file_def write_loop_eq)

lemma process_scan:
  assumes "identity_present L fs p" and "ts_prefix_from_name p = Some ts"
    and "choose_candidate (backup_candidates L fs p ts) = Inr src"
  shows "process_jsonl L fs p dry =
     (case collect_cwd_filtered_lines L fs src (target_cwd_norm L fs p) of
        Inl e \<Rightarrow> (Inl e, fs)
      | Inr source_lines \<Rightarrow>
          (if source_lines = [] then (Inr False, fs)
           else
             (case rehydrate (fst (extract_cwd_and_id_from_jsonl L fs p))
                     (snd (extract_cwd_and_id_from_jsonl L fs p)) source_lines of
               Inl e \<Rightarrow> (Inl e, fs)
             | Inr rehydrated \<Rightarrow>
                 (case fs p of
                   None \<Rightarrow> (Inl FileNotFoundError, fs)
                 | Some raws \<Rightarrow>
                     (if dry then (Inr True, fs)
                      else write_file L fs p
                             (merge_lines L rehydrated (read_existing L raws)))))))"
proof -
  from assms(3) obtain c cs where cs: "backup_candidates L fs p ts = c # cs"
    by (cases "backup_candidates L fs p ts") (simp_all add: choose_candidate_Nil)
  have "glob L fs (parent p) (''rollout-'' @ ts @ ''-*.mixed.bak'') = c # cs"
    using cs by (simp add: backup_candidates_def)
  moreover have "choose_candidate (c # cs) = Inr src" using assms(3) cs by simp
  moreover have "ts \<noteq> []" using assms(2) by (rule ts_prefix_nonempty)
  ultimately show ?thesis
    using assms(1,2)
    by (simp add: process_jsonl_def Let_def identity_present_def target_cwd_norm_def)
qed

lemma context_filtered_subset: "set (context_filtered L t rs) \<subseteq> set rs"
  by (auto simp: context_filtered_def)

lemma context_filtered_empty_target: "context_filtered L [] rs = []"
  by (simp add: context_filtered_def)

lemma collect_records:
  assumes "collect_cwd_filtered_lines L fs src t = Inr out"
  shows "list_all is_record out"
proof (cases "fs src")
  case None
  with assms show ?thesis by (simp add: collect_characterised)
next
  case (Some raws)
  with assms have rs: "list_all is_record (parsed_records L raws)"
    and out: "out = context_filtered L t (parsed_records L raws)"
    by (auto simp: collect_characterised split: if_splits)
  from rs context_filtered_subset [of L t "parsed_records L raws"] show ?thesis
    unfolding out by (auto simp: list_all_iff)
qed

lemma collect_error:
  "collect_cwd_filtered_lines L fs src t = Inl e \<Longrightarrow> e = AttributeError"
  by (auto simp: collect_characterised split: option.splits if_splits)

lemma collect_empty_target:
  "collect_cwd_filtered_lines L fs src [] =
     (if backup_of_records L fs src then Inr [] else Inl AttributeError)"
  by (auto simp: collect_characterised context_filtered_empty_target backup_of_records_def
      split: option.splits)

lemma update_record_ok:
  assumes "is_record r"
  shows "\<exists>r'. update_cwd_and_id r c i = Inr r'"
proof -
  from assms obtain kvs where r: "r = JObj kvs" by (cases r) simp_all
  consider (meta) "map_of kvs ''type'' = Some (JStr ''session_meta'')"
    | (ctx) "map_of kvs ''type'' = Some (JStr ''turn_context'')"
    | (other) "map_of kvs ''type'' \<noteq> Some (JStr ''session_meta'')"
        "map_of kvs ''type'' \<noteq> Some (JStr ''turn_context'')"
    by blast
  then show ?thesis
  proof cases
    case meta
    from record_payload_meta [OF meta assms [unfolded r]] update_session_meta [OF meta]
    show ?thesis unfolding r by blast
  next
    case ctx
    from record_payload [OF ctx assms [unfolded r]] update_turn_context [OF ctx]
    show ?thesis unfolding r by blast
  next
    case other
    from update_other_kind [OF other] show ?thesis unfolding r by blast
  qed
qed

lemma rehydrate_ok:
  "list_all is_record rs \<Longrightarrow> \<exists>rs'. rehydrate c i rs = Inr rs'"
proof (induction rs)
  case Nil
  show ?case by simp
next
  case (Cons r rs)
  then obtain rs' where "rehydrate c i rs = Inr rs'" by auto
  moreover from Cons.prems update_record_ok [of r c i] obtain r' where
    "update_cwd_and_id r c i = Inr r'" by auto
  ultimately show ?case by simp
qed

lemma process_scan_empty:
  assumes "identity_present L fs p" and "ts_prefix_from_name p = Some ts"
    and "choose_candidate (backup_candidates L fs p ts) = Inr src"
    and "collect_cwd_filtered_lines L fs src (target_cwd_norm L fs p) = Inr []"
  shows "process_jsonl L fs p dry = (Inr False, fs)"
  by (simp add: process_scan [OF assms(1,2,3)] assms(4))

lemma process_scan_raises:
  assumes "identity_present L fs p" and "ts_prefix_from_name p = Some ts"
    and "choose_candidate (backup_candidates L fs p ts) = Inr src"
    and "collect_cwd_filtered_lines L fs src (target_cwd_norm L fs p) = Inl e"
  shows "process_jsonl L fs p dry = (Inl e, fs)"
  by (simp add: process_scan [OF assms(1,2,3)] assms(4))

lemma process_repaired:
  assumes "identity_present L fs p" and "ts_prefix_from_name p = Some ts"
    and "choose_candidate (backup_candidates L fs p ts) = Inr src"
    and "collect_cwd_filtered_lines L fs src (target_cwd_norm L fs p) = Inr (r # rs)"
  shows "\<exists>rs' raws. rehydrate (fst (extract_cwd_and_id_from_jsonl L fs p))
                         (snd (extract_cwd_and_id_from_jsonl L fs p)) (r # rs) = Inr rs' \<and>
           fs p = Some raws \<and>
           process_jsonl L fs p dry =
             (if dry then (Inr True, fs)
              else (if list_all (encodable L) (merge_lines L rs' (read_existing L raws))
                    then Inr True else Inl UnicodeEncodeError,
                    fs(p \<mapsto> write_lines L
                      (takeWhile (encodable L) (merge_lines L rs' (read_existing L raws))))))"
proof -
  from collect_records [OF assms(4)] rehydrate_ok obtain rs' where
    rs': "rehydrate (fst (extract_cwd_and_id_from_jsonl L fs p))
            (snd (extract_cwd_and_id_from_jsonl L fs p)) (r # rs) = Inr rs'"
    by blast
  from identity_file [OF assms(1)] obtain raws where raws: "fs p = Some raws" by blast
  have "process_jsonl L fs p dry =
      (if dry then (Inr True, fs)
       else (if list_all (encodable L) (merge_lines L rs' (read_existing L raws))
             then Inr True else Inl UnicodeEncodeError,
             fs(p \<mapsto> write_lines L
               (takeWhile (encodable L) (merge_lines L rs' (read_existing L raws))))))"
    by (simp add: process_scan [OF assms(1,2,3)] assms(4) rs' raws write_file_eq
        del: rehydrate.simps)
  with rs' raws show ?thesis by blast
qed

lemma scan_step_on_record:
  assumes "strip raw \<noteq> []" and "json_loads L (strip raw) = Some r" and "is_record r"
  shows "scan_step L t st raw =
     Inr (if truthy (cwd_value r) then Some (normalize_cwd (py_str L (cwd_value r))) else fst st,
          if (if truthy (cwd_value r) then Some (normalize_cwd (py_str L (cwd_value r)))
              else fst st) = Some t \<and> t \<noteq> []
          then snd st @ [r] else snd st)"
  using assms
  by (auto simp: scan_step_def new_cwd_of_record and_then_def Let_def)

lemma process_outcomes:
  "process_jsonl L fs p dry = (Inr False, fs) \<or>
   process_jsonl L fs p dry = (Inl AttributeError, fs) \<or>
   (identity_present L fs p \<and>
    (\<exists>ts src r rs. ts_prefix_from_name p = Some ts \<and>
       choose_candidate (backup_candidates L fs p ts) = Inr src \<and>
       collect_cwd_filtered_lines L fs src (target_cwd_norm L fs p) = Inr (r # rs)) \<and>
    (\<exists>merged. process_jsonl L fs p dry =
       (if dry then (Inr True, fs)
        else (if list_all (encodable L) merged then Inr True else Inl UnicodeEncodeError,
              fs(p \<mapsto> write_lines L (takeWhile (encodable L) merged))))))"
proof (cases "identity_present L fs p")
  case False
  then show ?thesis by (simp add: process_no_identity)
next
  case ident: True
  show ?thesis
  proof (cases "ts_prefix_from_name p")
    case None
    then show ?thesis by (simp add: process_no_timestamp)
  next
    case ts: (Some ts)
    show ?thesis
    proof (cases "backup_candidates L fs p ts = []")
      case True
      with ts show ?thesis by (simp add: process_no_candidate)
    next
      case False
      from choose_candidate_hd [OF False] obtain src where
        src: "choose_candidate (backup_candidates L fs p ts) = Inr src" by blast
      show ?thesis
      proof (cases "collect_cwd_filtered_lines L fs src (target_cwd_norm L fs p)")
        case (Inl e)
        from collect_error [OF Inl] process_scan_raises [OF ident ts src Inl]
        show ?thesis by simp
      next
        case (Inr out)
        show ?thesis
        proof (cases out)
          case Nil
          with Inr process_scan_empty [OF ident ts src] show ?thesis by simp
        next
          case (Cons r rs)
          with Inr have c: "collect_cwd_filtered_lines L fs src (target_cwd_norm L fs p) = Inr (r # rs)"
            by simp
          from process_repaired [OF ident ts src c, of dry] obtain merged where
            "process_jsonl L fs p dry =
               (if dry then (Inr True, fs)
                else (if list_all (encodable L) merged then Inr True else Inl UnicodeEncodeError,
                      fs(p \<mapsto> write_lines L (takeWhile (encodable L) merged))))"
            by blast
          with ident ts src c show ?thesis by blast
        qed
      qed
    qed
  qed
qed





text \<open>
  Claim C10, as the code has it. The root directory, written with either separator,
  normalises to the empty string. With the empty string as target path the scanner never
  returns a record: it returns the empty sequence when the backup does not exist or all
  its decodable lines are records, and raises \<open>AttributeError\<close> when a line decodes to
  something else. A record whose working directory is the empty string leaves the context
  as it was, and one whose working directory normalises to the empty string stores the
  empty string and is not kept. So the repair of a target whose working directory
  normalises to the empty string never returns repaired and never writes: it returns not
  repaired or raises \<open>AttributeError\<close>, the file system unchanged, and once the three
  stages before the scan have succeeded it is the scan that decides between the two.
\<close>

theorem empty_target_never_repaired:
  "normalize_cwd ''/'' = [] \<and> normalize_cwd [bslash] = [] \<and>
   collect_cwd_filtered_lines L fs src [] =
     (if backup_of_records L fs src then Inr [] else Inl AttributeError) \<and>
   (strip raw \<noteq> [] \<and> json_loads L (strip raw) = Some r \<and> is_record r \<and> cwd_value r = JStr []
      \<longrightarrow> (\<exists>out. scan_step L t st raw = Inr (fst st, out))) \<and>
   (strip raw \<noteq> [] \<and> json_loads L (strip raw) = Some r \<and> is_record r \<and>
    truthy (cwd_value r) \<and> normalize_cwd (py_str L (cwd_value r)) = []
      \<longrightarrow> scan_step L t st raw = Inr (Some [], snd st)) \<and>
   (target_cwd_norm L fs p = [] \<longrightarrow>
      process_jsonl L fs p dry = (Inr False, fs) \<or>
      process_jsonl L fs p dry = (Inl AttributeError, fs)) \<and>
   (target_cwd_norm L fs p = [] \<and> identity_present L fs p \<and>
    ts_prefix_from_name p = Some ts \<and>
    choose_candidate (backup_candidates L fs p ts) = Inr src
      \<longrightarrow> process_jsonl L fs p dry =
            (if backup_of_records L fs src then (Inr False, fs) else (Inl AttributeError, fs)))"
proof -
  have 1: "normalize_cwd ''/'' = []" by code_simp
  have 2: "normalize_cwd [bslash] = []" by code_simp
  have 3: "collect_cwd_filtered_lines L fs src [] =
     (if backup_of_records L fs src then Inr [] else Inl AttributeError)"
    by (rule collect_empty_target)
  have 5: "strip raw \<noteq> [] \<and> json_loads L (strip raw) = Some r \<and> is_record r \<and> cwd_value r = JStr []
      \<longrightarrow> (\<exists>out. scan_step L t st raw = Inr (fst st, out))"
    by (auto simp: scan_step_on_record)
  have 6: "strip raw \<noteq> [] \<and> json_loads L (strip raw) = Some r \<and> is_record r \<and>
    truthy (cwd_value r) \<and> normalize_cwd (py_str L (cwd_value r)) = []
      \<longrightarrow> scan_step L t st raw = Inr (Some [], snd st)"
    by (auto simp: scan_step_on_record)
  have 7: "target_cwd_norm L fs p = [] \<longrightarrow>
      process_jsonl L fs p dry = (Inr False, fs) \<or>
      process_jsonl L fs p dry = (Inl AttributeError, fs)"
  proof
    assume e: "target_cwd_norm L fs p = []"
    have "collect_cwd_filtered_lines L fs s (target_cwd_norm L fs p) \<noteq> Inr (x # xs)" for s x xs
      using collect_empty_target [of L fs s] unfolding e by (auto split: if_splits)
    with process_outcomes [of L fs p dry]
    show "process_jsonl L fs p dry = (Inr False, fs) \<or>
      process_jsonl L fs p dry = (Inl AttributeError, fs)"
      by blast
  qed
  have 8: "target_cwd_norm L fs p = [] \<and> identity_present L fs p \<and>
    ts_prefix_from_name p = Some ts \<and>
    choose_candidate (backup_candidates L fs p ts) = Inr src
      \<longrightarrow> process_jsonl L fs p dry =
            (if backup_of_records L fs src then (Inr False, fs) else (Inl AttributeError, fs))"
  proof (intro impI, elim conjE)
    assume a: "target_cwd_norm L fs p = []" "identity_present L fs p"
      "ts_prefix_from_name p = Some ts"
      "choose_candidate (backup_candidates L fs p ts) = Inr src"
    have c: "collect_cwd_filtered_lines L fs src (target_cwd_norm L fs p) =
        (if backup_of_records L fs src then Inr [] else Inl AttributeError)"
      unfolding a(1) by (rule collect_empty_target)
    show "process_jsonl L fs p dry =
            (if backup_of_records L fs src then (Inr False, fs) else (Inl AttributeError, fs))"
    proof (cases "backup_of_records L fs src")
      case True
      with c process_scan_empty [OF a(2,3,4), of dry] show ?thesis by simp
    next
      case False
      with c process_scan_raises [OF a(2,3,4), of AttributeError dry] show ?thesis by simp
    qed
  qed
  from 1 2 3 5 6 7 8 show ?thesis by (intro conjI)
qed

theorem empty_target_never_repaired_witness:
  "target_cwd_norm sample_lib root_fs sample_target = [] \<and>
   identity_present sample_lib root_fs sample_target \<and>
   choose_candidate (backup_candidates sample_lib root_fs sample_target ''2025-01-01T00-00-00'') =
     Inr sample_backup \<and>
   backup_of_records sample_lib root_fs sample_backup \<and>
   collect_cwd_filtered_lines sample_lib root_fs sample_backup [] = Inr [] \<and>
   process_jsonl sample_lib root_fs sample_target False = (Inr False, root_fs)"
proof -
  have t: "target_cwd_norm sample_lib root_fs sample_target = []" by code_simp
  have i: "identity_present sample_lib root_fs sample_target" by code_simp
  have ts: "ts_prefix_from_name sample_target = Some ''2025-01-01T00-00-00''" by code_simp
  have c: "choose_candidate (backup_candidates sample_lib root_fs sample_target
      ''2025-01-01T00-00-00'') = Inr sample_backup"
    by code_simp
  have r: "backup_of_records sample_lib root_fs sample_backup" by code_simp
  note inst = empty_target_never_repaired
    [of sample_lib root_fs sample_backup "[]" JNull "[]" "(None, [])" sample_target False
      "''2025-01-01T00-00-00''"]
  from inst r have s: "collect_cwd_filtered_lines sample_lib root_fs sample_backup [] = Inr []"
    by simp
  from inst t i ts c r
  have "process_jsonl sample_lib root_fs sample_target False = (Inr False, root_fs)"
    by simp
  with t i c r s show ?thesis by (intro conjI)
qed

text \<open>
  A backup of the session in the root directory that holds the line \<open>[1]\<close>: the line
  decodes to a list, \<open>obj.get\<close> raises outside the inner \<open>try\<close>, and neither the scanner nor
  the repair returns.
\<close>

theorem empty_target_scan_raises:
  "target_cwd_norm sample_lib root_list_fs sample_target = [] \<and>
   json_loads sample_lib (strip list_text) = Some (JArr [JInt 1]) \<and>
   collect_cwd_filtered_lines sample_lib root_list_fs sample_backup [] = Inl AttributeError \<and>
   collect_cwd_filtered_lines sample_lib root_list_fs sample_backup [] \<noteq> Inr [] \<and>
   fst (process_jsonl sample_lib root_list_fs sample_target False) = Inl AttributeError"
  by code_simp

section \<open>Identity extraction and lines that do not decode\<close>

lemma extract_undecodable_first:
  assumes "fs p = Some (raw # rest)" and "strip raw \<noteq> []" and "json_loads L (strip raw) = None"
  shows "extract_cwd_and_id_from_jsonl L fs p = (JNull, JNull)"
  using assms by (simp add: extract_cwd_and_id_from_jsonl_def)

lemma extract_first_session_meta:
  assumes "fs p = Some (raw # rest)" and "strip raw \<noteq> []"
    and "json_loads L (strip raw) = Some r" and "is_record r"
    and "get_path [''type''] r = Some (JStr ''session_meta'')"
  shows "extract_cwd_and_id_from_jsonl L fs p =
     (case get_path [''payload'', ''meta'', ''cwd''] r of None \<Rightarrow> JNull | Some v \<Rightarrow> v,
      case get_path [''payload'', ''meta'', ''id''] r of None \<Rightarrow> JNull | Some v \<Rightarrow> v)"
proof -
  from assms(4) obtain kvs where r: "r = JObj kvs" by (cases r) simp_all
  from assms(5) have ty: "map_of kvs ''type'' = Some (JStr ''session_meta'')"
    unfolding r by (simp split: option.splits)
  from record_payload_meta [OF ty assms(4) [unfolded r]] obtain pkvs mkvs where
    pl: "map_of kvs ''payload'' = None \<and> pkvs = [] \<or> map_of kvs ''payload'' = Some (JObj pkvs)"
    and mt: "map_of pkvs ''meta'' = None \<and> mkvs = [] \<or> map_of pkvs ''meta'' = Some (JObj mkvs)"
    by blast
  from assms(1,2,3) ty pl mt show ?thesis
    unfolding r
    by (auto simp: extract_cwd_and_id_from_jsonl_def and_then_def split: option.splits)
qed

text \<open>
  Claim C3 at a target whose first line does not decode. \<open>json.loads\<close> raises on the first
  line, the exception leaves the loop and the function returns \<open>(None, None)\<close>, although the
  second line is a \<open>session_meta\<close> record; without the first line the identity of that
  record is returned. The second pass over the same file, in \<open>process_jsonl\<close>, skips the
  line; but the repair has already ended for want of an identity.
\<close>

theorem extract_stops_at_undecodable_line:
  "json_loads sample_lib (strip ''not json'') = None \<and>
   extract_cwd_and_id_from_jsonl sample_lib (with_target [''not json'', meta_t1_text])
     sample_target = (JNull, JNull) \<and>
   extract_cwd_and_id_from_jsonl sample_lib (with_target [meta_t1_text]) sample_target =
     (JStr ''/work/proj'', JStr ''T1'') \<and>
   read_existing sample_lib [''not json'', meta_t1_text] = [meta_t1]"
  by code_simp

lemma repair_stops_at_undecodable_line:
  "process_jsonl sample_lib (with_target [''not json'', meta_t1_text]) sample_target False =
     (Inr False, with_target [''not json'', meta_t1_text])"
proof -
  have "extract_cwd_and_id_from_jsonl sample_lib (with_target [''not json'', meta_t1_text])
     sample_target = (JNull, JNull)"
    by code_simp
  then have "\<not> identity_present sample_lib (with_target [''not json'', meta_t1_text])
      sample_target"
    by (simp add: identity_present_def)
  then show ?thesis by (rule process_no_identity)
qed

end
